theory Spec2Isabelle
  imports
    Complex_Main
    "HOL-Library.AList"
    "HOL-Library.Sublist"
    "HOL-Library.Char_ord"
    "HOL-Library.List_Lexorder"
    "HOL-Library.Product_Lexorder"
begin

section \<open>Data model of \<^verbatim>\<open>platform_cli/config.py\<close>\<close>

text \<open>
  The four named tuples of the module.  Python strings are modelled as \<^typ>\<open>string\<close>.
  The selectors carry the tuple's name as a prefix, because the Python fields
  \<^verbatim>\<open>name\<close> and \<^verbatim>\<open>value\<close> are shared by several tuples.
\<close>

datatype Default = Default (default_name: string) (default_value: string)

datatype Override = Override (override_name: string) (override_value: string)

datatype Suggestion =
  Suggestion (suggestion_name: string) (suggestion_value: string) (suggestion_why: string)

datatype Doc = Doc (doc_name: string) (doc_doc: string)

text \<open>
  A Python \<^verbatim>\<open>dict\<close> is an association list with pairwise distinct keys, kept in
  insertion order: \<^const>\<open>map_of\<close> reads it, \<^const>\<open>AList.update\<close> is the assignment
  \<^verbatim>\<open>d[k] = v\<close> (replace in place, or append a new key).  No result of the module
  depends on the order in which a dict is iterated.
\<close>

type_synonym ('k, 'v) dict = "('k \<times> 'v) list"

text \<open>
  The module raises one exception class, \<^verbatim>\<open>Error\<close>, told apart by its message.
  \<^verbatim>\<open>InvalidName n s\<close> is the message
  \<^verbatim>\<open>Invalid variable name "n": contains "s".\<close> and \<^verbatim>\<open>DuplicateName v w\<close> is
  \<^verbatim>\<open>Duplicate variable name. v duplicates w.\<close>
\<close>

datatype 'r name_error = InvalidName string string | DuplicateName 'r 'r

text \<open>
  Every way an operation of the module can end without a result.  The validator's
  \<^verbatim>\<open>Error\<close> is tagged with the collection it was raised for (the message prints the
  records, whose tuple name tells as much).  \<^verbatim>\<open>SystemExit message matches\<close> is
  \<^verbatim>\<open>sys.exit(1)\<close> after \<^verbatim>\<open>exit_on_unknown_key\<close> has printed the message and the close
  matches.  \<^verbatim>\<open>ValueError\<close> and \<^verbatim>\<open>KeyError\<close> are the built-in exceptions of
  \<^verbatim>\<open>list.remove\<close> and of a dict subscript.
\<close>

datatype error =
    DefaultsError "Default name_error"
  | OverridesError "Override name_error"
  | SuggestionsError "Suggestion name_error"
  | DocsError "Doc name_error"
  | TemplateCycleError "string list"
  | StoreIOError
  | SystemExit string "string list"
  | ValueError
  | KeyError string

section \<open>Name validator\<close>

text \<open>
  \<^verbatim>\<open>validate_and_map_by_name(variables)\<close>.  The loop carries the dict
  \<^verbatim>\<open>vars_by_name\<close>; the first argument is the attribute access \<^verbatim>\<open>var.name\<close> of the
  duck-typed tuples.  \<^verbatim>\<open>'___' in var.name\<close> is \<^term>\<open>sublist ''___'' (nm var)\<close>.
\<close>

fun validate_loop ::
  "('r \<Rightarrow> string) \<Rightarrow> (string, 'r) dict \<Rightarrow> 'r list \<Rightarrow> 'r name_error + (string, 'r) dict"
where
  "validate_loop nm vars_by_name [] = Inr vars_by_name"
| "validate_loop nm vars_by_name (var # variables) =
     (if sublist ''___'' (nm var) then Inl (InvalidName (nm var) ''___'')
      else if sublist '' '' (nm var) then Inl (InvalidName (nm var) '' '')
      else (case map_of vars_by_name (nm var) of
              Some prev \<Rightarrow> Inl (DuplicateName var prev)
            | None \<Rightarrow> validate_loop nm (AList.update (nm var) var vars_by_name) variables))"

definition validate_and_map_by_name ::
  "('r \<Rightarrow> string) \<Rightarrow> 'r list \<Rightarrow> 'r name_error + (string, 'r) dict"
where
  "validate_and_map_by_name nm variables = validate_loop nm [] variables"

text \<open>A name is acceptable when it has neither a space nor a triple underscore.\<close>

definition valid_name :: "string \<Rightarrow> bool" where
  "valid_name n \<longleftrightarrow> \<not> sublist ''___'' n \<and> \<not> sublist '' '' n"

text \<open>
  The records before position \<open>j\<close> of a collection pass every check: their names are
  acceptable and pairwise distinct.
\<close>

definition passes_before :: "('r \<Rightarrow> string) \<Rightarrow> 'r list \<Rightarrow> nat \<Rightarrow> bool" where
  "passes_before nm xs j \<longleftrightarrow>
     (\<forall>r \<in> set (take j xs). valid_name (nm r)) \<and> distinct (map nm (take j xs))"

section \<open>Template engine\<close>

text \<open>
  Modelled from the spec: the module \<^verbatim>\<open>template\<close> with its function
  \<^verbatim>\<open>render_values_in_template_map\<close> is imported by \<^verbatim>\<open>config.py\<close> but is not
  among the sources.  The spec (4.2, 6) asks for textual substitution of every
  \<^verbatim>\<open>{{name}}\<close> reference by the value of the variable of that name in the same mapping,
  with the same key set, through at least one level of indirection, by passes iterated
  to a fixed point, failing with \<^verbatim>\<open>TemplateCycleError\<close> on circular references.  It
  leaves the policy for a reference to an unknown name open; here such a reference is
  left as it is.

  A value is cut into literal characters and references.  A reference opens with
  \<^verbatim>\<open>{{\<close> and runs to the next \<^verbatim>\<open>}}\<close>; an opening without a closing is literal text.
  The first argument of \<^verbatim>\<open>tokenize_from\<close> is the reversed name read so far when the
  scan is inside a reference.
\<close>

datatype token = Lit char | Ref string

fun tokenize_from :: "string option \<Rightarrow> string \<Rightarrow> token list" where
  "tokenize_from None [] = []"
| "tokenize_from None [c] = [Lit c]"
| "tokenize_from None (c # d # cs) =
     (if c = CHR ''{'' \<and> d = CHR ''{'' then tokenize_from (Some []) cs
      else Lit c # tokenize_from None (d # cs))"
| "tokenize_from (Some acc) [] = map Lit (''{{'' @ rev acc)"
| "tokenize_from (Some acc) [c] = map Lit (''{{'' @ rev (c # acc))"
| "tokenize_from (Some acc) (c # d # cs) =
     (if c = CHR ''}'' \<and> d = CHR ''}'' then Ref (rev acc) # tokenize_from None cs
      else tokenize_from (Some (c # acc)) (d # cs))"

text \<open>Modelled from the spec: the scan of a whole value of the missing module \<^verbatim>\<open>template\<close>.\<close>

definition tokenize :: "string \<Rightarrow> token list" where
  "tokenize s = tokenize_from None s"

text \<open>
  Modelled from the spec: what the missing module \<^verbatim>\<open>template\<close> puts for a token; a
  reference to a name outside the mapping stays as written.
\<close>

fun expand :: "(string \<rightharpoonup> string) \<Rightarrow> token \<Rightarrow> string" where
  "expand m (Lit c) = [c]"
| "expand m (Ref n) = (case m n of Some v \<Rightarrow> v | None \<Rightarrow> ''{{'' @ n @ ''}}'')"

text \<open>Modelled from the spec: the substitution in one value (module \<^verbatim>\<open>template\<close>).\<close>

definition substitute :: "(string \<rightharpoonup> string) \<Rightarrow> string \<Rightarrow> string" where
  "substitute m s = concat (map (expand m) (tokenize s))"

text \<open>Modelled from the spec: the names a value refers to (module \<^verbatim>\<open>template\<close>).\<close>

fun token_refs :: "token \<Rightarrow> string list" where
  "token_refs (Lit c) = []"
| "token_refs (Ref n) = [n]"

definition references :: "string \<Rightarrow> string list" where
  "references s = concat (map token_refs (tokenize s))"

text \<open>
  Modelled from the spec: one pass of the missing module \<^verbatim>\<open>template\<close> substitutes in
  every value, reading the values as they were before the pass.
\<close>

definition render_pass :: "(string, string) dict \<Rightarrow> (string, string) dict" where
  "render_pass m = map (\<lambda>(k, v). (k, substitute (map_of m) v)) m"

text \<open>
  Modelled from the spec: the names whose value still refers to a name of the mapping, and
  the mappings that have none (module \<^verbatim>\<open>template\<close>).
\<close>

definition unresolved :: "(string, string) dict \<Rightarrow> string list" where
  "unresolved m = map fst (filter (\<lambda>(k, v). \<exists>n \<in> set (references v). map_of m n \<noteq> None) m)"

definition fully_substituted :: "(string, string) dict \<Rightarrow> bool" where
  "fully_substituted m \<longleftrightarrow> unresolved m = []"

text \<open>
  Modelled from the spec: \<^verbatim>\<open>render_values_in_template_map\<close> of the missing module
  \<^verbatim>\<open>template\<close>.  Passes are repeated until no value refers to a name of the mapping.  References that
  do not form a cycle are gone after as many passes as there are variables; when they
  are not, the engine fails and names the variables that still hold a reference.
\<close>

fun render_loop :: "nat \<Rightarrow> (string, string) dict \<Rightarrow> error + (string, string) dict" where
  "render_loop 0 m =
     (let m' = render_pass m
      in if fully_substituted m' then Inr m' else Inl (TemplateCycleError (unresolved m')))"
| "render_loop (Suc passes) m =
     (let m' = render_pass m
      in if fully_substituted m' then Inr m' else render_loop passes m')"

definition render_values_in_template_map ::
  "(string, string) dict \<Rightarrow> error + (string, string) dict"
where
  "render_values_in_template_map m = render_loop (length m) m"

section \<open>Override store\<close>

text \<open>
  Modelled from the spec: the modules \<^verbatim>\<open>protected_file_path\<close> (the context manager
  \<^verbatim>\<open>ProtectedFilePath\<close>) and \<^verbatim>\<open>props\<close> (\<^verbatim>\<open>get_items\<close>, \<^verbatim>\<open>set_key\<close>,
  \<^verbatim>\<open>delete_key\<close>) are imported by \<^verbatim>\<open>config.py\<close> but are not among the sources.
  The spec (4.3, 5, 6, 7) describes a property file of \<^verbatim>\<open>name=value\<close> lines sorted by
  name, created empty on first use, guarded by an exclusive lock held for the whole of
  an operation, and rewritten by writing a temporary file that is then renamed over the
  original.

  The state is the file at \<^verbatim>\<open>config_path\<close> (\<^const>\<open>None\<close> when it does not exist),
  the temporary file beside it, the lock, and the log of what was done to them.  The file
  is held as its parsed lines.
\<close>

datatype event = Acquire | Release | Create | Read | WriteTemp | Rename

record store =
  file_lines :: "(string \<times> string) list option"
  temp_lines :: "(string \<times> string) list option"
  lock_held :: bool
  events :: "event list"

text \<open>
  Modelled from the spec: the failures of the missing modules \<^verbatim>\<open>props\<close> and
  \<^verbatim>\<open>protected_file_path\<close> (spec, 7).  What goes wrong in one run of an operation, if anything: the lock cannot be taken, the
  file cannot be created or read, the write to the temporary file breaks off after a
  number of lines, or the rename fails.
\<close>

datatype fault = NoFault | LockFails | CreateFails | ReadFails | WriteFails nat | RenameFails

text \<open>
  Modelled from the spec: the entries in the file the missing module \<^verbatim>\<open>props\<close> reads;
  an absent file is an empty store (spec, 6).
\<close>

definition store_items :: "store \<Rightarrow> (string \<times> string) list" where
  "store_items s = (case file_lines s of None \<Rightarrow> [] | Some items \<Rightarrow> items)"

text \<open>
  Modelled from the spec: \<^verbatim>\<open>ProtectedFilePath\<close> of the missing module
  \<^verbatim>\<open>protected_file_path\<close>, whose entry takes the lock and whose exit releases it, in
  the \<^verbatim>\<open>with ProtectedFilePath(path):\<close> statement of \<^verbatim>\<open>config.py\<close>: the lock is
  taken, the body runs, and the lock is released whether the body returns or raises; when
  the lock cannot be taken the body does not run.
\<close>

definition with_ProtectedFilePath ::
  "fault \<Rightarrow> (store \<Rightarrow> (error + 'a) \<times> store) \<Rightarrow> store \<Rightarrow> (error + 'a) \<times> store"
where
  "with_ProtectedFilePath f body s =
     (if f = LockFails then (Inl StoreIOError, s)
      else (let (r, s') = body (s\<lparr>lock_held := True, events := events s @ [Acquire]\<rparr>)
            in (r, s'\<lparr>lock_held := False, events := events s' @ [Release]\<rparr>)))"

text \<open>
  Modelled from the spec: \<^verbatim>\<open>create_new=True\<close> and \<^verbatim>\<open>get_items\<close> of the missing module
  \<^verbatim>\<open>props\<close>; a missing file is created empty before it is read.
\<close>

definition create_new :: "fault \<Rightarrow> store \<Rightarrow> error + store" where
  "create_new f s =
     (case file_lines s of
        Some items \<Rightarrow> Inr s
      | None \<Rightarrow> if f = CreateFails then Inl StoreIOError
                else Inr (s\<lparr>file_lines := Some [], events := events s @ [Create]\<rparr>))"

definition get_items :: "fault \<Rightarrow> store \<Rightarrow> (error + (string \<times> string) list) \<times> store" where
  "get_items f s =
     (case create_new f s of
        Inl e \<Rightarrow> (Inl e, s)
      | Inr s' \<Rightarrow> if f = ReadFails then (Inl StoreIOError, s')
                 else (Inr (store_items s'), s'\<lparr>events := events s' @ [Read]\<rparr>))"

text \<open>
  Modelled from the spec: \<^verbatim>\<open>set_key\<close> and \<^verbatim>\<open>delete_key\<close> of the missing module
  \<^verbatim>\<open>props\<close>, which rewrite the entries, sorted by name, through an atomic replace.
  The atomic replace: the new lines go to the temporary file, which is then renamed over
  the original.  A write that breaks off leaves its first lines in the temporary file.
\<close>

definition replace_items ::
  "fault \<Rightarrow> (string \<times> string) list \<Rightarrow> store \<Rightarrow> (error + unit) \<times> store"
where
  "replace_items f items s =
     (case f of
        WriteFails written \<Rightarrow>
          (Inl StoreIOError,
           s\<lparr>temp_lines := Some (take written items), events := events s @ [WriteTemp]\<rparr>)
      | RenameFails \<Rightarrow>
          (Inl StoreIOError, s\<lparr>temp_lines := Some items, events := events s @ [WriteTemp]\<rparr>)
      | _ \<Rightarrow>
          (Inr (),
           s\<lparr>file_lines := Some items, temp_lines := None, events := events s @ [WriteTemp, Rename]\<rparr>))"

definition set_key :: "string \<Rightarrow> string \<Rightarrow> fault \<Rightarrow> store \<Rightarrow> (error + unit) \<times> store" where
  "set_key key val f s =
     (case get_items f s of
        (Inl e, s') \<Rightarrow> (Inl e, s')
      | (Inr items, s') \<Rightarrow> replace_items f (sort_key fst (AList.update key val items)) s')"

definition delete_key :: "string \<Rightarrow> fault \<Rightarrow> store \<Rightarrow> (error + unit) \<times> store" where
  "delete_key key f s =
     (case get_items f s of
        (Inl e, s') \<Rightarrow> (Inl e, s')
      | (Inr items, s') \<Rightarrow> replace_items f (sort_key fst (AList.delete key items)) s')"

section \<open>The standard library's \<^verbatim>\<open>difflib.get_close_matches\<close>\<close>

text \<open>
  \<^verbatim>\<open>exit_on_unknown_key\<close> calls \<^verbatim>\<open>difflib.get_close_matches(key, default_names)\<close>.
  This is Python's \<^verbatim>\<open>difflib\<close> as far as that call runs it: a \<^verbatim>\<open>SequenceMatcher\<close>
  with \<^verbatim>\<open>isjunk=None\<close> and \<^verbatim>\<open>autojunk=True\<close>, whose sequence \<^verbatim>\<open>b\<close> is the word and
  whose sequence \<^verbatim>\<open>a\<close> is a possibility.

  \<^verbatim>\<open>__chain_b\<close>: \<^verbatim>\<open>b2j\<close> maps an element to the increasing list of its positions in
  \<^verbatim>\<open>b\<close>; in a sequence of 200 elements or more the elements that occur more than
  \<^verbatim>\<open>n // 100 + 1\<close> times are popular and have no entry.  \<^verbatim>\<open>b2j b elt\<close> is
  \<^verbatim>\<open>b2j.get(elt, [])\<close>.
\<close>

definition indices_of :: "string \<Rightarrow> char \<Rightarrow> nat list" where
  "indices_of b elt = filter (\<lambda>i. b ! i = elt) [0..<length b]"

definition popular :: "string \<Rightarrow> char \<Rightarrow> bool" where
  "popular b elt \<longleftrightarrow> length b \<ge> 200 \<and> length (indices_of b elt) > length b div 100 + 1"

definition b2j :: "string \<Rightarrow> char \<Rightarrow> nat list" where
  "b2j b elt = (if popular b elt then [] else indices_of b elt)"

text \<open>
  \<^verbatim>\<open>find_longest_match\<close>, the loop over \<^verbatim>\<open>j\<close> in \<^verbatim>\<open>b2j.get(a[i], nothing)\<close>, with its
  \<^verbatim>\<open>continue\<close> and \<^verbatim>\<open>break\<close>.  The state is \<^verbatim>\<open>(newj2len, besti, bestj, bestsize)\<close>.
  \<^verbatim>\<open>j2len.get(j-1, 0)\<close> at \<^verbatim>\<open>j = 0\<close> asks for the key \<^verbatim>\<open>-1\<close>, which no dict holds.
\<close>

fun j_loop ::
  "nat \<Rightarrow> nat \<Rightarrow> nat \<Rightarrow> (nat, nat) dict \<Rightarrow> nat list \<Rightarrow>
   (nat, nat) dict \<times> nat \<times> nat \<times> nat \<Rightarrow> (nat, nat) dict \<times> nat \<times> nat \<times> nat"
where
  "j_loop i blo bhi j2len [] st = st"
| "j_loop i blo bhi j2len (j # js) (newj2len, besti, bestj, bestsize) =
     (if j < blo then j_loop i blo bhi j2len js (newj2len, besti, bestj, bestsize)
      else if j \<ge> bhi then (newj2len, besti, bestj, bestsize)
      else (let k = (if j = 0 then 0
                     else case map_of j2len (j - 1) of Some l \<Rightarrow> l | None \<Rightarrow> 0) + 1
            in if k > bestsize
               then j_loop i blo bhi j2len js (AList.update j k newj2len, i + 1 - k, j + 1 - k, k)
               else j_loop i blo bhi j2len js (AList.update j k newj2len, besti, bestj, bestsize)))"

text \<open>The loop over \<^verbatim>\<open>i\<close> in \<^verbatim>\<open>range(alo, ahi)\<close>; the state is \<^verbatim>\<open>(j2len, besti, bestj, bestsize)\<close>.\<close>

fun i_loop ::
  "string \<Rightarrow> string \<Rightarrow> nat \<Rightarrow> nat \<Rightarrow> nat list \<Rightarrow>
   (nat, nat) dict \<times> nat \<times> nat \<times> nat \<Rightarrow> nat \<times> nat \<times> nat"
where
  "i_loop a b blo bhi [] (j2len, besti, bestj, bestsize) = (besti, bestj, bestsize)"
| "i_loop a b blo bhi (i # is) (j2len, besti, bestj, bestsize) =
     i_loop a b blo bhi is (j_loop i blo bhi j2len (b2j b (a ! i)) ([], besti, bestj, bestsize))"

text \<open>
  The two loops that extend the best match at each end.  Without an \<^verbatim>\<open>isjunk\<close>
  function the set \<^verbatim>\<open>bjunk\<close> is empty: \<^verbatim>\<open>not isbjunk(...)\<close> holds, and the two further
  loops, which take up junk only, do nothing.
\<close>

function extend_left :: "string \<Rightarrow> string \<Rightarrow> nat \<Rightarrow> nat \<Rightarrow> nat \<times> nat \<times> nat \<Rightarrow> nat \<times> nat \<times> nat" where
  "extend_left a b alo blo (besti, bestj, bestsize) =
     (if besti > alo \<and> bestj > blo \<and> a ! (besti - 1) = b ! (bestj - 1)
      then extend_left a b alo blo (besti - 1, bestj - 1, bestsize + 1)
      else (besti, bestj, bestsize))"
  by pat_completeness auto
termination
  by (relation "measure (\<lambda>(a, b, alo, blo, besti, bestj, bestsize). besti)") auto

declare extend_left.simps [simp del]

function extend_right :: "string \<Rightarrow> string \<Rightarrow> nat \<Rightarrow> nat \<Rightarrow> nat \<times> nat \<times> nat \<Rightarrow> nat \<times> nat \<times> nat" where
  "extend_right a b ahi bhi (besti, bestj, bestsize) =
     (if besti + bestsize < ahi \<and> bestj + bestsize < bhi
         \<and> a ! (besti + bestsize) = b ! (bestj + bestsize)
      then extend_right a b ahi bhi (besti, bestj, bestsize + 1)
      else (besti, bestj, bestsize))"
  by pat_completeness auto
termination
  by (relation "measure (\<lambda>(a, b, ahi, bhi, besti, bestj, bestsize). ahi - (besti + bestsize))") auto

declare extend_right.simps [simp del]

definition find_longest_match ::
  "string \<Rightarrow> string \<Rightarrow> nat \<Rightarrow> nat \<Rightarrow> nat \<Rightarrow> nat \<Rightarrow> nat \<times> nat \<times> nat"
where
  "find_longest_match a b alo ahi blo bhi =
     extend_right a b ahi bhi
       (extend_left a b alo blo (i_loop a b blo bhi [alo..<ahi] ([], alo, blo, 0)))"

text \<open>
  The match that \<^verbatim>\<open>find_longest_match\<close> returns lies inside the two ranges it was
  given, as its documentation says.  This is what makes the loop of
  \<^verbatim>\<open>get_matching_blocks\<close> terminate, and it shows that no subtraction of the model
  falls below zero.
\<close>

lemma set_update_cases:
  "(x, y) \<in> set (AList.update k v al) \<Longrightarrow> (x, y) = (k, v) \<or> (x, y) \<in> set al"
  by (induction al) (auto split: if_splits)

text \<open>What the dict of match lengths and the best match satisfy while row \<open>i\<close> is scanned.\<close>

definition lens_ok :: "nat \<Rightarrow> nat \<Rightarrow> (nat, nat) dict \<Rightarrow> bool" where
  "lens_ok blo bound j2len \<longleftrightarrow>
     (\<forall>(j, l) \<in> set j2len. l \<le> bound \<and> blo \<le> j \<and> l \<le> j + 1 - blo)"

definition best_ok :: "nat \<Rightarrow> nat \<Rightarrow> nat \<Rightarrow> nat \<Rightarrow> nat \<times> nat \<times> nat \<Rightarrow> bool" where
  "best_ok alo ahi blo bhi best \<longleftrightarrow>
     (case best of (besti, bestj, bestsize) \<Rightarrow>
        alo \<le> besti \<and> besti + bestsize \<le> ahi \<and> blo \<le> bestj \<and> bestj + bestsize \<le> bhi)"

lemma j_loop_ok:
  assumes "lens_ok blo (i - alo) j2len" and "alo \<le> i" and "i < ahi"
    and "lens_ok blo (i + 1 - alo) newj2len"
    and "best_ok alo (i + 1) blo bhi (besti, bestj, bestsize)"
    and "j_loop i blo bhi j2len js (newj2len, besti, bestj, bestsize) = (n', i', j', k')"
  shows "lens_ok blo (i + 1 - alo) n' \<and> best_ok alo (i + 1) blo bhi (i', j', k')"
  using assms(4-6)
proof (induction js arbitrary: newj2len besti bestj bestsize)
  case Nil
  then show ?case by simp
next
  case (Cons j js)
  show ?case
  proof (cases "j < blo")
    case True
    with Cons.prems(3) have "j_loop i blo bhi j2len js (newj2len, besti, bestj, bestsize) = (n', i', j', k')"
      by simp
    from Cons.IH[OF Cons.prems(1,2) this] show ?thesis .
  next
    case lo: False
    show ?thesis
    proof (cases "j \<ge> bhi")
      case True
      with lo Cons.prems show ?thesis by simp
    next
      case hi: False
      define k where "k = (if j = 0 then 0
                     else case map_of j2len (j - 1) of Some l \<Rightarrow> l | None \<Rightarrow> 0) + 1"
      have prev: "(if j = 0 then 0
                     else case map_of j2len (j - 1) of Some l \<Rightarrow> l | None \<Rightarrow> 0)
                  \<le> i - alo \<and>
                  (if j = 0 then 0
                     else case map_of j2len (j - 1) of Some l \<Rightarrow> l | None \<Rightarrow> 0)
                  \<le> j - blo"
      proof (cases "j = 0 \<or> map_of j2len (j - 1) = None")
        case True
        then show ?thesis by auto
      next
        case False
        then obtain l where l: "map_of j2len (j - 1) = Some l" and j0: "j \<noteq> 0" by auto
        from l have "(j - 1, l) \<in> set j2len" by (rule map_of_SomeD)
        with assms(1) have "l \<le> i - alo" "blo \<le> j - 1" "l \<le> j - 1 + 1 - blo"
          unfolding lens_ok_def by auto
        then have "l \<le> i - alo \<and> l \<le> j - blo" using j0 by simp
        with l j0 show ?thesis by simp
      qed
      have jlo: "blo \<le> j" using lo by simp
      have kb: "k \<le> i + 1 - alo \<and> k \<le> j + 1 - blo"
        unfolding k_def using prev assms(2) jlo by linarith
      have new: "lens_ok blo (i + 1 - alo) (AList.update j k newj2len)"
        unfolding lens_ok_def
      proof (clarify)
        fix x y assume "(x, y) \<in> set (AList.update j k newj2len)"
        then have "(x, y) = (j, k) \<or> (x, y) \<in> set newj2len" by (rule set_update_cases)
        then show "y \<le> i + 1 - alo \<and> blo \<le> x \<and> y \<le> x + 1 - blo"
        proof
          assume "(x, y) = (j, k)"
          with kb jlo show ?thesis by simp
        next
          assume "(x, y) \<in> set newj2len"
          with Cons.prems(1) show ?thesis unfolding lens_ok_def by auto
        qed
      qed
      show ?thesis
      proof (cases "k > bestsize")
        case True
        have b: "best_ok alo (i + 1) blo bhi (i + 1 - k, j + 1 - k, k)"
          unfolding best_ok_def using kb hi assms(2) jlo by simp linarith
        from True lo hi Cons.prems(3)
        have "j_loop i blo bhi j2len js (AList.update j k newj2len, i + 1 - k, j + 1 - k, k)
            = (n', i', j', k')"
          by (simp add: k_def Let_def)
        from Cons.IH[OF new b this] show ?thesis .
      next
        case False
        with lo hi Cons.prems(3)
        have "j_loop i blo bhi j2len js (AList.update j k newj2len, besti, bestj, bestsize)
            = (n', i', j', k')"
          by (simp add: k_def Let_def)
        from Cons.IH[OF new Cons.prems(2) this] show ?thesis .
      qed
    qed
  qed
qed


lemma best_ok_mono: "best_ok alo m blo bhi best \<Longrightarrow> m \<le> n \<Longrightarrow> best_ok alo n blo bhi best"
  by (auto simp: best_ok_def)

lemma i_loop_ok:
  assumes "alo \<le> i0" and "i0 \<le> ahi"
    and "lens_ok blo (i0 - alo) j2len"
    and "best_ok alo i0 blo bhi (besti, bestj, bestsize)"
  shows "best_ok alo ahi blo bhi (i_loop a b blo bhi [i0..<ahi] (j2len, besti, bestj, bestsize))"
  using assms
proof (induction "ahi - i0" arbitrary: i0 j2len besti bestj bestsize)
  case 0
  then show ?case by simp
next
  case (Suc n)
  then have lt: "i0 < ahi" by simp
  then have upt: "[i0..<ahi] = i0 # [Suc i0..<ahi]" by (simp add: upt_conv_Cons)
  obtain n' i' j' k' where
    j: "j_loop i0 blo bhi j2len (b2j b (a ! i0)) ([], besti, bestj, bestsize) = (n', i', j', k')"
    by (cases "j_loop i0 blo bhi j2len (b2j b (a ! i0)) ([], besti, bestj, bestsize)") auto
  have e: "lens_ok blo (i0 + 1 - alo) []" by (simp add: lens_ok_def)
  have b: "best_ok alo (i0 + 1) blo bhi (besti, bestj, bestsize)"
    using Suc.prems(4) by (rule best_ok_mono) simp
  from j_loop_ok[OF Suc.prems(3) Suc.prems(1) lt e b j]
  have l: "lens_ok blo (Suc i0 - alo) n'" and b': "best_ok alo (Suc i0) blo bhi (i', j', k')"
    by simp_all
  have "best_ok alo ahi blo bhi (i_loop a b blo bhi [Suc i0..<ahi] (n', i', j', k'))"
    using Suc.hyps(2) Suc.prems(1) lt l b' by (intro Suc.hyps(1)) auto
  then show ?case using upt j by simp
qed

lemma extend_left_ok:
  "best_ok alo ahi blo bhi best \<Longrightarrow> best_ok alo ahi blo bhi (extend_left a b alo blo best)"
proof (induction a b alo blo best rule: extend_left.induct)
  case (1 a b alo blo besti bestj bestsize)
  show ?case
  proof (cases "besti > alo \<and> bestj > blo \<and> a ! (besti - 1) = b ! (bestj - 1)")
    case True
    from "1.prems" True have "best_ok alo ahi blo bhi (besti - 1, bestj - 1, bestsize + 1)"
      by (auto simp: best_ok_def)
    from "1.IH"[OF True this] True show ?thesis by (subst extend_left.simps) simp
  next
    case False
    with "1.prems" show ?thesis by (subst extend_left.simps) auto
  qed
qed

lemma extend_right_ok:
  "best_ok alo ahi blo bhi best \<Longrightarrow> best_ok alo ahi blo bhi (extend_right a b ahi bhi best)"
proof (induction a b ahi bhi best rule: extend_right.induct)
  case (1 a b ahi bhi besti bestj bestsize)
  show ?case
  proof (cases "besti + bestsize < ahi \<and> bestj + bestsize < bhi
         \<and> a ! (besti + bestsize) = b ! (bestj + bestsize)")
    case True
    from "1.prems" True have "best_ok alo ahi blo bhi (besti, bestj, bestsize + 1)"
      by (auto simp: best_ok_def)
    from "1.IH"[OF True this] True show ?thesis by (subst extend_right.simps) simp
  next
    case False
    with "1.prems" show ?thesis by (subst extend_right.simps) auto
  qed
qed

lemma find_longest_match_range:
  assumes "alo \<le> ahi" and "blo \<le> bhi"
  shows "best_ok alo ahi blo bhi (find_longest_match a b alo ahi blo bhi)"
proof -
  have "best_ok alo ahi blo bhi (i_loop a b blo bhi [alo..<ahi] ([], alo, blo, 0))"
    using assms by (intro i_loop_ok) (auto simp: lens_ok_def best_ok_def)
  then show ?thesis unfolding find_longest_match_def
    by (intro extend_right_ok extend_left_ok)
qed

lemma find_longest_match_empty:
  assumes "ahi \<le> alo"
  shows "find_longest_match a b alo ahi blo bhi = (alo, blo, 0)"
proof -
  from assms have "[alo..<ahi] = []" by simp
  then show ?thesis using assms
    by (simp add: find_longest_match_def extend_left.simps extend_right.simps)
qed

lemma j_loop_skip: "bhi \<le> blo \<Longrightarrow> j_loop i blo bhi j2len js st = st"
proof (induction js)
  case Nil
  then show ?case by simp
next
  case (Cons j js)
  then show ?case by (cases st) auto
qed

lemma i_loop_skip:
  "bhi \<le> blo \<Longrightarrow> i_loop a b blo bhi is (j2len, best) = best"
proof (induction "is" arbitrary: j2len)
  case Nil
  then show ?case by (cases best) simp
next
  case (Cons i "is")
  then show ?case by (cases best) (simp add: j_loop_skip)
qed

lemma find_longest_match_a_range:
  assumes "find_longest_match a b alo ahi blo bhi = (i, j, k)" and "k \<noteq> 0"
  shows "alo \<le> i \<and> i + k \<le> ahi"
proof (cases "alo \<le> ahi")
  case False
  then have "ahi \<le> alo" by simp
  from find_longest_match_empty[OF this, of a b blo bhi] assms show ?thesis by simp
next
  case True
  show ?thesis
  proof (cases "blo \<le> bhi")
    case True
    from find_longest_match_range[OF \<open>alo \<le> ahi\<close> True, of a b] assms(1)
    show ?thesis by (simp add: best_ok_def)
  next
    case False
    then have "i_loop a b blo bhi [alo..<ahi] ([], alo, blo, 0) = (alo, blo, 0)"
      by (simp add: i_loop_skip)
    with False have "find_longest_match a b alo ahi blo bhi = (alo, blo, 0)"
      by (simp add: find_longest_match_def extend_left.simps extend_right.simps)
    with assms show ?thesis by simp
  qed
qed

text \<open>
  \<^verbatim>\<open>get_matching_blocks\<close>, the loop over the list \<^verbatim>\<open>queue\<close>, which Python uses as a
  stack: \<^verbatim>\<open>queue.pop()\<close> takes the element appended last, here the head of the list.
\<close>

function matching_loop ::
  "string \<Rightarrow> string \<Rightarrow> (nat \<times> nat \<times> nat \<times> nat) list \<Rightarrow> (nat \<times> nat \<times> nat) list \<Rightarrow>
   (nat \<times> nat \<times> nat) list"
where
  "matching_loop a b [] matching_blocks = matching_blocks"
| "matching_loop a b ((alo, ahi, blo, bhi) # queue) matching_blocks =
     (case find_longest_match a b alo ahi blo bhi of
        (i, j, k) \<Rightarrow>
          if k \<noteq> 0
          then matching_loop a b
                 ((if i + k < ahi \<and> j + k < bhi then [(i + k, ahi, j + k, bhi)] else [])
                  @ (if alo < i \<and> blo < j then [(alo, i, blo, j)] else [])
                  @ queue)
                 (matching_blocks @ [(i, j, k)])
          else matching_loop a b queue matching_blocks)"
  by pat_completeness auto
termination
  by (relation "measure (\<lambda>(a, b, queue, matching_blocks).
          sum_list (map (\<lambda>(alo, ahi, blo, bhi). 2 * (ahi - alo) + 1) queue))")
     (auto dest!: find_longest_match_a_range[OF sym])

declare matching_loop.simps [simp del]

text \<open>
  The rest of \<^verbatim>\<open>get_matching_blocks\<close>: the blocks are sorted, adjacent blocks are merged,
  and the dummy block \<^verbatim>\<open>(la, lb, 0)\<close> is appended.  The state of the merging loop is
  \<^verbatim>\<open>(i1, j1, k1)\<close> and \<^verbatim>\<open>non_adjacent\<close>.
\<close>

fun collapse_loop ::
  "(nat \<times> nat \<times> nat) list \<Rightarrow> nat \<times> nat \<times> nat \<Rightarrow> (nat \<times> nat \<times> nat) list \<Rightarrow>
   (nat \<times> nat \<times> nat) list"
where
  "collapse_loop [] (i1, j1, k1) non_adjacent =
     (if k1 \<noteq> 0 then non_adjacent @ [(i1, j1, k1)] else non_adjacent)"
| "collapse_loop ((i2, j2, k2) # rest) (i1, j1, k1) non_adjacent =
     (if i1 + k1 = i2 \<and> j1 + k1 = j2 then collapse_loop rest (i1, j1, k1 + k2) non_adjacent
      else collapse_loop rest (i2, j2, k2)
             (if k1 \<noteq> 0 then non_adjacent @ [(i1, j1, k1)] else non_adjacent))"

definition get_matching_blocks :: "string \<Rightarrow> string \<Rightarrow> (nat \<times> nat \<times> nat) list" where
  "get_matching_blocks a b =
     collapse_loop (sort (matching_loop a b [(0, length a, 0, length b)] [])) (0, 0, 0) []
     @ [(length a, length b, 0)]"

text \<open>
  \<^verbatim>\<open>_calculate_ratio\<close> returns the double \<^verbatim>\<open>2.0 * matches / length\<close>; it is modelled
  by the rational number that the double rounds.  The rounding changes neither the
  comparison with the cutoff 0.6 nor the order of two scores as long as the sequences
  have fewer than \<open>2^25\<close> elements.
\<close>

definition calculate_ratio :: "nat \<Rightarrow> nat \<Rightarrow> rat" where
  "calculate_ratio matches len = (if len \<noteq> 0 then 2 * of_nat matches / of_nat len else 1)"

definition ratio :: "string \<Rightarrow> string \<Rightarrow> rat" where
  "ratio a b =
     calculate_ratio (sum_list (map (\<lambda>(i, j, k). k) (get_matching_blocks a b)))
       (length a + length b)"

text \<open>
  \<^verbatim>\<open>quick_ratio\<close>: \<^verbatim>\<open>fullbcount\<close> counts the occurrences of each element of \<^verbatim>\<open>b\<close>;
  the loop over \<^verbatim>\<open>a\<close> carries the dict \<^verbatim>\<open>avail\<close>, whose numbers go below zero, and
  \<^verbatim>\<open>matches\<close>.
\<close>

fun quick_loop :: "string \<Rightarrow> string \<Rightarrow> (char, int) dict \<Rightarrow> nat \<Rightarrow> nat" where
  "quick_loop b [] avail matches = matches"
| "quick_loop b (elt # rest) avail matches =
     (let numb = (case map_of avail elt of
                    Some n \<Rightarrow> n
                  | None \<Rightarrow> int (count_list b elt))
      in quick_loop b rest (AList.update elt (numb - 1) avail)
           (if numb > 0 then matches + 1 else matches))"

definition quick_ratio :: "string \<Rightarrow> string \<Rightarrow> rat" where
  "quick_ratio a b = calculate_ratio (quick_loop b a [] 0) (length a + length b)"

definition real_quick_ratio :: "string \<Rightarrow> string \<Rightarrow> rat" where
  "real_quick_ratio a b = calculate_ratio (min (length a) (length b)) (length a + length b)"

text \<open>
  \<^verbatim>\<open>heapq.nlargest(n, iterable)\<close>, by the equivalence its documentation states:
  \<^verbatim>\<open>sorted(iterable, reverse=True)[:n]\<close>.  The elements are pairs of a score and a
  string, which Python compares lexicographically.
\<close>

definition nlargest :: "nat \<Rightarrow> (rat \<times> string) list \<Rightarrow> (rat \<times> string) list" where
  "nlargest n xs = take n (rev (sort xs))"

text \<open>
  The loop of \<^verbatim>\<open>get_close_matches\<close> over the possibilities, with \<^verbatim>\<open>word\<close> as the
  sequence \<^verbatim>\<open>b\<close> of the matcher and the possibility as its sequence \<^verbatim>\<open>a\<close>.
\<close>

fun close_loop :: "string \<Rightarrow> rat \<Rightarrow> string list \<Rightarrow> (rat \<times> string) list \<Rightarrow> (rat \<times> string) list"
where
  "close_loop word cutoff [] result = result"
| "close_loop word cutoff (x # possibilities) result =
     (if real_quick_ratio x word \<ge> cutoff \<and> quick_ratio x word \<ge> cutoff
         \<and> ratio x word \<ge> cutoff
      then close_loop word cutoff possibilities (result @ [(ratio x word, x)])
      else close_loop word cutoff possibilities result)"

definition get_close_matches ::
  "string \<Rightarrow> string list \<Rightarrow> nat \<Rightarrow> rat \<Rightarrow> error + string list"
where
  "get_close_matches word possibilities n cutoff =
     (if \<not> n > 0 then Inl ValueError
      else if \<not> (0 \<le> cutoff \<and> cutoff \<le> 1) then Inl ValueError
      else Inr (map snd (nlargest n (close_loop word cutoff possibilities []))))"

section \<open>The class \<^verbatim>\<open>Config\<close>\<close>

text \<open>
  The object holds the three collections given to the constructor (\<^verbatim>\<open>None\<close> becomes
  the empty list).  Its \<^verbatim>\<open>config_path\<close> names the override store, which the methods
  below take and return as the state.
\<close>

record Config =
  defaults :: "Default list"
  suggestions :: "Suggestion list"
  docs :: "Doc list"

subsection \<open>Override store operations\<close>

definition get_overrides :: "fault \<Rightarrow> store \<Rightarrow> (error + Override list) \<times> store" where
  "get_overrides f s =
     (case with_ProtectedFilePath f (get_items f) s of
        (Inl e, s') \<Rightarrow> (Inl e, s')
      | (Inr conf_items, s') \<Rightarrow> (Inr (map (\<lambda>(name, val). Override name val) conf_items), s'))"

definition delete_override :: "string \<Rightarrow> fault \<Rightarrow> store \<Rightarrow> (error + unit) \<times> store" where
  "delete_override key f s = with_ProtectedFilePath f (delete_key key f) s"

definition set_override :: "string \<Rightarrow> string \<Rightarrow> fault \<Rightarrow> store \<Rightarrow> (error + unit) \<times> store" where
  "set_override key val f s = with_ProtectedFilePath f (set_key key val f) s"

subsection \<open>Resolution\<close>

text \<open>
  The first loop of \<^verbatim>\<open>get_active_values_and_metadata\<close>, over the items of
  \<^verbatim>\<open>defaults_by_name\<close>; the state is \<^verbatim>\<open>(active_values, different_defaults)\<close>.
\<close>

fun merge_loop ::
  "(string, Override) dict \<Rightarrow> (string \<times> Default) list \<Rightarrow>
   (string, string) dict \<times> (string, Default) dict \<Rightarrow>
   (string, string) dict \<times> (string, Default) dict"
where
  "merge_loop overrides_by_name [] acc = acc"
| "merge_loop overrides_by_name ((name, dflt) # rest) (active_values, different_defaults) =
     (case map_of overrides_by_name name of
        Some override \<Rightarrow>
          if override_value override \<noteq> default_value dflt
          then merge_loop overrides_by_name rest
                 (AList.update name (override_value override) active_values,
                  AList.update name dflt different_defaults)
          else merge_loop overrides_by_name rest
                 (AList.update name (default_value dflt) active_values, different_defaults)
      | None \<Rightarrow>
          merge_loop overrides_by_name rest
            (AList.update name (default_value dflt) active_values, different_defaults))"

text \<open>The second loop, over the items of the rendered \<^verbatim>\<open>active_values\<close>.\<close>

fun suggestion_loop ::
  "(string, Suggestion) dict \<Rightarrow> (string \<times> string) list \<Rightarrow>
   (string, Suggestion) dict \<Rightarrow> (string, Suggestion) dict"
where
  "suggestion_loop suggestions_by_name [] different_suggestions = different_suggestions"
| "suggestion_loop suggestions_by_name ((name, val) # rest) different_suggestions =
     (case map_of suggestions_by_name name of
        Some suggestion \<Rightarrow>
          if suggestion_value suggestion \<noteq> val
          then suggestion_loop suggestions_by_name rest
                 (AList.update name suggestion different_suggestions)
          else suggestion_loop suggestions_by_name rest different_suggestions
      | None \<Rightarrow> suggestion_loop suggestions_by_name rest different_suggestions)"

text \<open>
  \<^verbatim>\<open>get_active_values_and_metadata\<close> returns
  \<^verbatim>\<open>(active_values, different_suggestions, different_defaults)\<close>.
\<close>

type_synonym resolution =
  "(string, string) dict \<times> (string, Suggestion) dict \<times> (string, Default) dict"

definition get_active_values_and_metadata ::
  "Config \<Rightarrow> fault \<Rightarrow> store \<Rightarrow> (error + resolution) \<times> store"
where
  "get_active_values_and_metadata self f s =
     (case validate_and_map_by_name default_name (defaults self) of
        Inl e \<Rightarrow> (Inl (DefaultsError e), s)
      | Inr defaults_by_name \<Rightarrow>
     (case get_overrides f s of
        (Inl e, s') \<Rightarrow> (Inl e, s')
      | (Inr overrides, s') \<Rightarrow>
     (case validate_and_map_by_name override_name overrides of
        Inl e \<Rightarrow> (Inl (OverridesError e), s')
      | Inr overrides_by_name \<Rightarrow>
     (case validate_and_map_by_name suggestion_name (suggestions self) of
        Inl e \<Rightarrow> (Inl (SuggestionsError e), s')
      | Inr suggestions_by_name \<Rightarrow>
     (case merge_loop overrides_by_name defaults_by_name ([], []) of
        (merged_values, different_defaults) \<Rightarrow>
     (case render_values_in_template_map merged_values of
        Inl e \<Rightarrow> (Inl e, s')
      | Inr active_values \<Rightarrow>
          (Inr (active_values,
                suggestion_loop suggestions_by_name active_values [],
                different_defaults), s')))))))"

subsection \<open>Commands driven by a key\<close>

text \<open>
  \<^verbatim>\<open>exit_on_unknown_key\<close> prints the message and the close matches and calls
  \<^verbatim>\<open>sys.exit(1)\<close>; \<^verbatim>\<open>get_close_matches\<close> runs with its defaults \<^verbatim>\<open>n=3\<close> and
  \<^verbatim>\<open>cutoff=0.6\<close>.
\<close>

definition exit_on_unknown_key :: "Config \<Rightarrow> string \<Rightarrow> string \<Rightarrow> error + unit" where
  "exit_on_unknown_key self key message =
     (let default_names = map default_name (defaults self)
      in if key \<notin> set default_names
         then (case get_close_matches key default_names 3 (6 / 10) of
                 Inl e \<Rightarrow> Inl e
               | Inr close_matches \<Rightarrow> Inl (SystemExit message close_matches))
         else Inr ())"

text \<open>The two messages, with the key between double quotes.\<close>

definition set_message :: "string \<Rightarrow> string" where
  "set_message property_name =
     ''Error: Can'' @ [CHR 0x27] @ ''t set override value for '' @ [CHR 0x22] @ property_name
     @ [CHR 0x22] @ '' because it is an unknown variable name.''"

definition delete_message :: "string \<Rightarrow> string" where
  "delete_message property_name =
     ''Error: Can'' @ [CHR 0x27] @ ''t delete override value for '' @ [CHR 0x22] @ property_name
     @ [CHR 0x22] @ '' because it is an unknown variable name.''"

text \<open>
  \<^verbatim>\<open>set_var\<close> and \<^verbatim>\<open>delete_var\<close> take \<^verbatim>\<open>args.property_name\<close> and
  \<^verbatim>\<open>args.property_value\<close>; \<^verbatim>\<open>enable\<close> and \<^verbatim>\<open>disable\<close> take \<^verbatim>\<open>args.service_name\<close>.
\<close>

definition set_var ::
  "Config \<Rightarrow> string \<Rightarrow> string \<Rightarrow> fault \<Rightarrow> store \<Rightarrow> (error + unit) \<times> store"
where
  "set_var self property_name property_value f s =
     (case exit_on_unknown_key self property_name (set_message property_name) of
        Inl e \<Rightarrow> (Inl e, s)
      | Inr u \<Rightarrow> set_override property_name property_value f s)"

definition delete_var :: "Config \<Rightarrow> string \<Rightarrow> fault \<Rightarrow> store \<Rightarrow> (error + unit) \<times> store" where
  "delete_var self property_name f s =
     (case exit_on_unknown_key self property_name (delete_message property_name) of
        Inl e \<Rightarrow> (Inl e, s)
      | Inr u \<Rightarrow> delete_override property_name f s)"

definition enable :: "Config \<Rightarrow> string \<Rightarrow> fault \<Rightarrow> store \<Rightarrow> (error + unit) \<times> store" where
  "enable self service_name f s = set_override (service_name @ ''.enabled'') ''True'' f s"

definition disable :: "Config \<Rightarrow> string \<Rightarrow> fault \<Rightarrow> store \<Rightarrow> (error + unit) \<times> store" where
  "disable self service_name f s = delete_override (service_name @ ''.enabled'') f s"

subsection \<open>Documentation\<close>

text \<open>\<^verbatim>\<open>name.split('.')[0]\<close>: the name up to its first dot.\<close>

definition category_of :: "string \<Rightarrow> string" where
  "category_of name = takeWhile (\<lambda>c. c \<noteq> CHR ''.'') name"

text \<open>
  The loop that fills \<^verbatim>\<open>names_by_category\<close>: \<^verbatim>\<open>setdefault(category, [])\<close> followed by
  \<^verbatim>\<open>append(name)\<close> on the list stored under the category.
\<close>

fun group_loop :: "string list \<Rightarrow> (string, string list) dict \<Rightarrow> (string, string list) dict" where
  "group_loop [] names_by_category = names_by_category"
| "group_loop (name # rest) names_by_category =
     (let category = category_of name
      in case map_of names_by_category category of
           None \<Rightarrow> group_loop rest (AList.update category [name] names_by_category)
         | Some names \<Rightarrow>
             group_loop rest (AList.update category (names @ [name]) names_by_category))"

text \<open>\<^verbatim>\<open>categories.remove('main')\<close> raises \<^verbatim>\<open>ValueError\<close> when the list has no such element.\<close>

definition remove_main :: "string list \<Rightarrow> error + string list" where
  "remove_main categories =
     (if ''main'' \<in> set categories then Inr (remove1 ''main'' categories) else Inl ValueError)"

text \<open>
  The inner loop of \<^verbatim>\<open>show_docs\<close> over the sorted names of one category.  The
  subscripts \<^verbatim>\<open>docs_by_name[name]\<close> and \<^verbatim>\<open>defaults_by_name[name]\<close> raise
  \<^verbatim>\<open>KeyError\<close> on a missing key.  \<^verbatim>\<open>textwrap.wrap\<close> is a parameter.
\<close>

fun name_lines ::
  "(string \<Rightarrow> string list) \<Rightarrow> (string, Default) dict \<Rightarrow> (string, Doc) dict \<Rightarrow>
   string list \<Rightarrow> error + string list"
where
  "name_lines wrap defaults_by_name docs_by_name [] = Inr []"
| "name_lines wrap defaults_by_name docs_by_name (name # rest) =
     (case map_of docs_by_name name of
        None \<Rightarrow> Inl (KeyError name)
      | Some doc \<Rightarrow>
     (case map_of defaults_by_name name of
        None \<Rightarrow> Inl (KeyError name)
      | Some dflt \<Rightarrow>
     (case name_lines wrap defaults_by_name docs_by_name rest of
        Inl e \<Rightarrow> Inl e
      | Inr output \<Rightarrow>
          Inr ([''    '' @ name]
               @ map (\<lambda>line. ''        '' @ line) (wrap (doc_doc doc))
               @ [''            Default: '' @ default_value dflt @ [CHR 0x0A]]
               @ output))))"

text \<open>
  The outer loop over the categories.  \<^verbatim>\<open>str.title\<close> is a parameter; \<^verbatim>\<open>sorted\<close> is
  \<^const>\<open>sort\<close> on the lexicographic order of strings.
\<close>

fun category_loop ::
  "(string \<Rightarrow> string) \<Rightarrow> (string \<Rightarrow> string list) \<Rightarrow> (string, Default) dict \<Rightarrow>
   (string, Doc) dict \<Rightarrow> (string, string list) dict \<Rightarrow> string list \<Rightarrow> error + string list"
where
  "category_loop title wrap defaults_by_name docs_by_name names_by_category [] = Inr []"
| "category_loop title wrap defaults_by_name docs_by_name names_by_category (category # rest) =
     (case map_of names_by_category category of
        None \<Rightarrow> Inl (KeyError category)
      | Some names \<Rightarrow>
     (case name_lines wrap defaults_by_name docs_by_name (sort names) of
        Inl e \<Rightarrow> Inl e
      | Inr lines \<Rightarrow>
     (case category_loop title wrap defaults_by_name docs_by_name names_by_category rest of
        Inl e \<Rightarrow> Inl e
      | Inr output \<Rightarrow>
          Inr ([title category, replicate (length category) CHR ''-'']
               @ lines @ [[CHR 0x0A]] @ output))))"

text \<open>
  \<^verbatim>\<open>show_docs\<close> up to the list \<^verbatim>\<open>output\<close>, which the method then pipes to the pager.
\<close>

definition show_docs ::
  "(string \<Rightarrow> string) \<Rightarrow> (string \<Rightarrow> string list) \<Rightarrow> Config \<Rightarrow> error + string list"
where
  "show_docs title wrap self =
     (case validate_and_map_by_name default_name (defaults self) of
        Inl e \<Rightarrow> Inl (DefaultsError e)
      | Inr defaults_by_name \<Rightarrow>
     (case validate_and_map_by_name doc_name (docs self) of
        Inl e \<Rightarrow> Inl (DocsError e)
      | Inr docs_by_name \<Rightarrow>
     (let names_by_category = group_loop (map fst docs_by_name) [];
          categories = sort (map fst names_by_category)
      in case remove_main categories of
           Inl e \<Rightarrow> Inl e
         | Inr categories \<Rightarrow>
             category_loop title wrap defaults_by_name docs_by_name names_by_category
               (''main'' # categories))))"

section \<open>Notions used to state the properties\<close>

text \<open>
  Step 2 of the spec's resolution algorithm, read on the stored overrides (the map from
  a name to its stored value): whether the override of a default differs from it, and
  the value the merge gives the default's name.
\<close>

definition override_differs :: "(string \<rightharpoonup> string) \<Rightarrow> Default \<Rightarrow> bool" where
  "override_differs stored d =
     (case stored (default_name d) of Some v \<Rightarrow> v \<noteq> default_value d | None \<Rightarrow> False)"

definition merged_value :: "(string \<rightharpoonup> string) \<Rightarrow> Default \<Rightarrow> string" where
  "merged_value stored d =
     (case stored (default_name d) of
        Some v \<Rightarrow> if v \<noteq> default_value d then v else default_value d
      | None \<Rightarrow> default_value d)"

text \<open>A value is plain for a configuration when it refers to no default name.\<close>

definition plain_for :: "Config \<Rightarrow> string \<Rightarrow> bool" where
  "plain_for self v \<longleftrightarrow> (\<forall>n \<in> set (references v). n \<notin> default_name ` set (defaults self))"

text \<open>
  The same two notions on the dict of validated overrides, as the first loop of
  \<^verbatim>\<open>get_active_values_and_metadata\<close> computes them for one item of
  \<^verbatim>\<open>defaults_by_name\<close>.
\<close>

definition mval :: "(string, Override) dict \<Rightarrow> string \<times> Default \<Rightarrow> string \<times> string" where
  "mval ov = (\<lambda>(n, d). (n, case map_of ov n of
       Some v \<Rightarrow> if override_value v \<noteq> default_value d then override_value v else default_value d
     | None \<Rightarrow> default_value d))"

definition mdiff :: "(string, Override) dict \<Rightarrow> string \<times> Default \<Rightarrow> bool" where
  "mdiff ov = (\<lambda>(n, d). case map_of ov n of
       Some v \<Rightarrow> override_value v \<noteq> default_value d | None \<Rightarrow> False)"

text \<open>
  The documentation listing: the lines \<^verbatim>\<open>show_docs\<close> writes for one entry and for one
  category with its names, read on the collections of the configuration.
\<close>

definition entry_lines :: "(string \<Rightarrow> string list) \<Rightarrow> Config \<Rightarrow> string \<Rightarrow> string list" where
  "entry_lines wrap self name =
     [''    '' @ name]
     @ map (\<lambda>line. ''        '' @ line)
         (wrap (case find (\<lambda>d. doc_name d = name) (docs self) of
                  Some d \<Rightarrow> doc_doc d | None \<Rightarrow> []))
     @ [''            Default: ''
        @ (case find (\<lambda>d. default_name d = name) (defaults self) of
             Some d \<Rightarrow> default_value d | None \<Rightarrow> [])
        @ [CHR 0x0A]]"

definition section_lines ::
  "(string \<Rightarrow> string) \<Rightarrow> (string \<Rightarrow> string list) \<Rightarrow> Config \<Rightarrow> string \<Rightarrow> string list \<Rightarrow>
   string list"
where
  "section_lines title wrap self category names =
     [title category, replicate (length category) CHR ''-'']
     @ concat (map (entry_lines wrap self) names) @ [[CHR 0x0A]]"

text \<open>The names of the Doc entries whose first dot-segment is the category.\<close>

definition names_in :: "Config \<Rightarrow> string \<Rightarrow> string list" where
  "names_in self category = filter (\<lambda>n. category_of n = category) (map doc_name (docs self))"

text \<open>
  A scoped acquisition, read on the log of an operation run with fault \<open>f\<close> from the
  state \<open>s\<close>: the lock is free afterwards; when it could not be taken nothing was touched;
  otherwise the operation added to the log an acquisition, then its accesses to the
  files, then a release.
\<close>

definition scoped :: "fault \<Rightarrow> store \<Rightarrow> (error + 'a) \<times> store \<Rightarrow> bool" where
  "scoped f s result \<longleftrightarrow>
     \<not> lock_held (snd result) \<and>
     (if f = LockFails then snd result = s \<and> fst result = Inl StoreIOError
      else (\<exists>accesses. events (snd result) = events s @ [Acquire] @ accesses @ [Release] \<and>
              Acquire \<notin> set accesses \<and> Release \<notin> set accesses))"

text \<open>
  A possibility clears the cutoff for a word when the three tests of
  \<^verbatim>\<open>get_close_matches\<close> pass: the two upper bounds and the ratio itself.
\<close>

definition clears :: "string \<Rightarrow> rat \<Rightarrow> string \<Rightarrow> bool" where
  "clears word cutoff x \<longleftrightarrow>
     real_quick_ratio x word \<ge> cutoff \<and> quick_ratio x word \<ge> cutoff \<and> ratio x word \<ge> cutoff"

section \<open>Properties of the name validator\<close>

lemma update_fresh: "map_of al k = None \<Longrightarrow> AList.update k v al = al @ [(k, v)]"
  by (induction al) (auto split: if_splits)

lemma validate_loop_ok:
  "(\<forall>r\<in>set xs. valid_name (nm r)) \<Longrightarrow> distinct (map nm xs) \<Longrightarrow>
   (\<forall>r\<in>set xs. map_of acc (nm r) = None) \<Longrightarrow>
   validate_loop nm acc xs = Inr (acc @ map (\<lambda>r. (nm r, r)) xs)"
proof (induction xs arbitrary: acc)
  case Nil
  then show ?case by simp
next
  case (Cons x xs)
  have fresh: "map_of acc (nm x) = None" using Cons.prems(3) by simp
  have upd: "AList.update (nm x) x acc = acc @ [(nm x, x)]"
    using fresh by (rule update_fresh)
  have "\<forall>r\<in>set xs. map_of (acc @ [(nm x, x)]) (nm r) = None"
  proof
    fix r assume r: "r \<in> set xs"
    then have "nm r \<noteq> nm x" using Cons.prems(2) by (simp add: image_iff) metis
    moreover have "map_of acc (nm r) = None" using r Cons.prems(3) by simp
    ultimately show "map_of (acc @ [(nm x, x)]) (nm r) = None"
      by (simp add: map_add_def)
  qed
  then have "validate_loop nm (acc @ [(nm x, x)]) xs =
      Inr ((acc @ [(nm x, x)]) @ map (\<lambda>r. (nm r, r)) xs)"
    using Cons.prems(1,2) by (intro Cons.IH) auto
  then show ?case using Cons.prems(1) fresh upd by (simp add: valid_name_def)
qed

lemma validate_loop_Inr:
  "validate_loop nm acc xs = Inr m \<Longrightarrow>
   (\<forall>r\<in>set xs. valid_name (nm r)) \<and> distinct (map nm xs) \<and>
   (\<forall>r\<in>set xs. map_of acc (nm r) = None)"
proof (induction xs arbitrary: acc)
  case Nil
  then show ?case by simp
next
  case (Cons x xs)
  from Cons.prems have v: "valid_name (nm x)" and fresh: "map_of acc (nm x) = None"
    and rest: "validate_loop nm (AList.update (nm x) x acc) xs = Inr m"
    by (auto simp: valid_name_def split: if_splits option.splits)
  from Cons.IH[OF rest] have ih: "\<forall>r\<in>set xs. valid_name (nm r)" "distinct (map nm xs)"
    "\<forall>r\<in>set xs. map_of (AList.update (nm x) x acc) (nm r) = None" by auto
  from ih(3) have "\<forall>r\<in>set xs. nm r \<noteq> nm x \<and> map_of acc (nm r) = None"
    by (auto simp: update_conv' split: if_splits)
  then show ?case using v fresh ih(1,2) by auto
qed

lemma validate_loop_InvalidName:
  "validate_loop nm acc xs = Inl (InvalidName n s) \<Longrightarrow>
   \<exists>r\<in>set xs. nm r = n \<and> sublist s n \<and> (s = ''___'' \<or> s = '' '')"
  by (induction xs arbitrary: acc) (auto split: if_splits option.splits)

lemma validate_loop_DuplicateName:
  "validate_loop nm (map (\<lambda>r. (nm r, r)) pre) xs = Inl (DuplicateName r p) \<Longrightarrow>
   distinct (map nm pre) \<Longrightarrow>
   \<exists>i j. i < j \<and> j < length (pre @ xs) \<and> (pre @ xs) ! i = p \<and> (pre @ xs) ! j = r \<and> nm p = nm r"
proof (induction xs arbitrary: pre)
  case Nil
  then show ?case by simp
next
  case (Cons x xs)
  let ?f = "\<lambda>r. (nm r, r)"
  show ?case
  proof (cases "map_of (map ?f pre) (nm x)")
    case (Some prev)
    with Cons.prems(1) have r: "r = x" and p: "p = prev"
      by (auto split: if_splits)
    from Some have "(nm x, prev) \<in> set (map ?f pre)" by (rule map_of_SomeD)
    then have "prev \<in> set pre" and nmeq: "nm prev = nm x" by auto
    then obtain i where i: "i < length pre" "pre ! i = prev" by (auto simp: in_set_conv_nth)
    have "i < length pre \<and> length pre < length (pre @ x # xs) \<and> (pre @ x # xs) ! i = p
        \<and> (pre @ x # xs) ! length pre = r \<and> nm p = nm r"
      using i r p nmeq by (simp add: nth_append)
    then show ?thesis by blast
  next
    case None
    then have upd: "AList.update (nm x) x (map ?f pre) = map ?f (pre @ [x])"
      by (simp add: update_fresh)
    from None have "nm x \<notin> set (map nm pre)"
      by (auto simp: map_of_eq_None_iff image_iff)
    then have d: "distinct (map nm (pre @ [x]))" using Cons.prems(2) by simp
    from Cons.prems(1) None upd
    have "validate_loop nm (map ?f (pre @ [x])) xs = Inl (DuplicateName r p)"
      by (auto split: if_splits)
    from Cons.IH[OF this d] show ?thesis by simp
  qed
qed

lemma validate_and_map_by_name_valid:
  "distinct (map nm xs) \<and> (\<forall>r\<in>set xs. valid_name (nm r)) \<Longrightarrow>
   validate_and_map_by_name nm xs = Inr (map (\<lambda>r. (nm r, r)) xs)"
  using validate_loop_ok[of xs nm "[]"] by (simp add: validate_and_map_by_name_def)

lemma map_of_by_name:
  "distinct (map nm xs) \<Longrightarrow>
   map_of (map (\<lambda>r. (nm r, r)) xs) n = Some r \<longleftrightarrow> r \<in> set xs \<and> nm r = n"
proof (induction xs)
  case Nil
  then show ?case by simp
next
  case (Cons x xs)
  then show ?case by (auto simp: image_iff)
qed

text \<open>The outcome by kind of defect, when the collection has one kind only.\<close>

lemma validate_cases:
  fixes nm :: "'r \<Rightarrow> string" and xs :: "'r list"
  shows
  "((\<forall>r\<in>set xs. valid_name (nm r)) \<and> distinct (map nm xs) \<longrightarrow>
      validate_and_map_by_name nm xs = Inr (map (\<lambda>r. (nm r, r)) xs)) \<and>
   ((\<exists>r\<in>set xs. \<not> valid_name (nm r)) \<or> \<not> distinct (map nm xs) \<longrightarrow>
      (\<exists>e. validate_and_map_by_name nm xs = Inl e)) \<and>
   ((\<exists>r\<in>set xs. \<not> valid_name (nm r)) \<and> distinct (map nm xs) \<longrightarrow>
      (\<exists>r\<in>set xs. \<exists>s. validate_and_map_by_name nm xs = Inl (InvalidName (nm r) s) \<and>
          sublist s (nm r) \<and> (s = ''___'' \<or> s = '' ''))) \<and>
   ((\<forall>r\<in>set xs. valid_name (nm r)) \<and> \<not> distinct (map nm xs) \<longrightarrow>
      (\<exists>i j. i < j \<and> j < length xs \<and> nm (xs ! i) = nm (xs ! j) \<and>
          validate_and_map_by_name nm xs = Inl (DuplicateName (xs ! j) (xs ! i))))"
proof (intro conjI impI)
  assume "(\<forall>r\<in>set xs. valid_name (nm r)) \<and> distinct (map nm xs)"
  then show "validate_and_map_by_name nm xs = Inr (map (\<lambda>r. (nm r, r)) xs)"
    using validate_loop_ok[of xs nm "[]"] by (simp add: validate_and_map_by_name_def)
next
  assume bad: "(\<exists>r\<in>set xs. \<not> valid_name (nm r)) \<or> \<not> distinct (map nm xs)"
  show "\<exists>e. validate_and_map_by_name nm xs = Inl e"
  proof (cases "validate_and_map_by_name nm xs")
    case (Inl e)
    then show ?thesis by blast
  next
    case (Inr m)
    then show ?thesis using bad validate_loop_Inr[of nm "[]" xs m]
      by (auto simp: validate_and_map_by_name_def)
  qed
next
  assume bad: "(\<exists>r\<in>set xs. \<not> valid_name (nm r)) \<and> distinct (map nm xs)"
  show "\<exists>r\<in>set xs. \<exists>s. validate_and_map_by_name nm xs = Inl (InvalidName (nm r) s) \<and>
          sublist s (nm r) \<and> (s = ''___'' \<or> s = '' '')"
  proof (cases "validate_and_map_by_name nm xs")
    case (Inr m)
    then show ?thesis using bad validate_loop_Inr[of nm "[]" xs m]
      by (auto simp: validate_and_map_by_name_def)
  next
    case (Inl e)
    show ?thesis
    proof (cases e)
      case (InvalidName n s)
      with Inl validate_loop_InvalidName[of nm "[]" xs n s] show ?thesis
        by (auto simp: validate_and_map_by_name_def)
    next
      case (DuplicateName r p)
      with Inl have "validate_loop nm (map (\<lambda>r. (nm r, r)) []) xs = Inl (DuplicateName r p)"
        by (simp add: validate_and_map_by_name_def)
      from validate_loop_DuplicateName[OF this]
      obtain i j where "i < j" "j < length xs" "nm (xs ! i) = nm (xs ! j)" by auto
      then have "\<not> distinct (map nm xs)"
        by (auto simp: distinct_conv_nth) (metis less_trans nat_neq_iff)
      with bad show ?thesis by simp
    qed
  qed
next
  assume bad: "(\<forall>r\<in>set xs. valid_name (nm r)) \<and> \<not> distinct (map nm xs)"
  show "\<exists>i j. i < j \<and> j < length xs \<and> nm (xs ! i) = nm (xs ! j) \<and>
          validate_and_map_by_name nm xs = Inl (DuplicateName (xs ! j) (xs ! i))"
  proof (cases "validate_and_map_by_name nm xs")
    case (Inr m)
    then show ?thesis using bad validate_loop_Inr[of nm "[]" xs m]
      by (auto simp: validate_and_map_by_name_def)
  next
    case (Inl e)
    show ?thesis
    proof (cases e)
      case (InvalidName n s)
      with Inl validate_loop_InvalidName[of nm "[]" xs n s] bad show ?thesis
        by (auto simp: validate_and_map_by_name_def valid_name_def)
    next
      case (DuplicateName r p)
      with Inl have "validate_loop nm (map (\<lambda>r. (nm r, r)) []) xs = Inl (DuplicateName r p)"
        by (simp add: validate_and_map_by_name_def)
      from validate_loop_DuplicateName[OF this]
      obtain i j where "i < j" "j < length xs" "xs ! i = p" "xs ! j = r" "nm p = nm r" by auto
      then show ?thesis using Inl DuplicateName by auto
    qed
  qed
qed

lemma validate_loop_prefix:
  "(\<forall>r\<in>set ys. valid_name (nm r)) \<Longrightarrow> distinct (map nm ys) \<Longrightarrow>
   (\<forall>r\<in>set ys. map_of acc (nm r) = None) \<Longrightarrow>
   validate_loop nm acc (ys @ zs) = validate_loop nm (acc @ map (\<lambda>r. (nm r, r)) ys) zs"
proof (induction ys arbitrary: acc)
  case Nil
  then show ?case by simp
next
  case (Cons y ys)
  have fresh: "map_of acc (nm y) = None" using Cons.prems(3) by simp
  have upd: "AList.update (nm y) y acc = acc @ [(nm y, y)]"
    using fresh by (rule update_fresh)
  have "\<forall>r\<in>set ys. map_of (acc @ [(nm y, y)]) (nm r) = None"
  proof
    fix r assume r: "r \<in> set ys"
    then have "nm r \<noteq> nm y" using Cons.prems(2) by (simp add: image_iff) metis
    moreover have "map_of acc (nm r) = None" using r Cons.prems(3) by simp
    ultimately show "map_of (acc @ [(nm y, y)]) (nm r) = None"
      by (simp add: map_add_def)
  qed
  then have "validate_loop nm (acc @ [(nm y, y)]) (ys @ zs) =
      validate_loop nm ((acc @ [(nm y, y)]) @ map (\<lambda>r. (nm r, r)) ys) zs"
    using Cons.prems(1,2) by (intro Cons.IH) auto
  then show ?case using Cons.prems(1) fresh upd by (simp add: valid_name_def)
qed

text \<open>The run up to position \<open>j\<close>, when the records before it pass every check.\<close>

lemma validate_upto:
  assumes "j < length xs" and "passes_before nm xs j"
  shows "validate_and_map_by_name nm xs
     = validate_loop nm (map (\<lambda>r. (nm r, r)) (take j xs)) (xs ! j # drop (Suc j) xs)"
proof -
  have "xs = take j xs @ xs ! j # drop (Suc j) xs"
    using assms(1) by (simp add: id_take_nth_drop)
  then have "validate_and_map_by_name nm xs
      = validate_loop nm [] (take j xs @ xs ! j # drop (Suc j) xs)"
    by (simp add: validate_and_map_by_name_def)
  also have "\<dots> = validate_loop nm ([] @ map (\<lambda>r. (nm r, r)) (take j xs))
        (xs ! j # drop (Suc j) xs)"
    using assms(2) unfolding passes_before_def by (intro validate_loop_prefix) auto
  finally show ?thesis by simp
qed

lemma first_failure_invalid:
  assumes "j < length xs" and "passes_before nm xs j"
  shows "(sublist ''___'' (nm (xs ! j)) \<longrightarrow>
            validate_and_map_by_name nm xs = Inl (InvalidName (nm (xs ! j)) ''___'')) \<and>
         (\<not> sublist ''___'' (nm (xs ! j)) \<and> sublist '' '' (nm (xs ! j)) \<longrightarrow>
            validate_and_map_by_name nm xs = Inl (InvalidName (nm (xs ! j)) '' ''))"
  unfolding validate_upto[OF assms] by simp

lemma first_failure_duplicate:
  assumes "j < length xs" and "passes_before nm xs j"
    and "i < j" and "valid_name (nm (xs ! j))" and "nm (xs ! i) = nm (xs ! j)"
  shows "validate_and_map_by_name nm xs = Inl (DuplicateName (xs ! j) (xs ! i))"
proof -
  from assms(1,3) have "xs ! i \<in> set (take j xs)"
    by (metis in_set_conv_nth length_take min_less_iff_conj nth_take order_less_trans)
  moreover from assms(2) have "distinct (map nm (take j xs))" by (simp add: passes_before_def)
  ultimately have "map_of (map (\<lambda>r. (nm r, r)) (take j xs)) (nm (xs ! j)) = Some (xs ! i)"
    using assms(5) by (simp add: map_of_by_name)
  then show ?thesis
    unfolding validate_upto[OF assms(1,2)] using assms(4) by (simp add: valid_name_def)
qed

lemma first_failure_exists:
  assumes "\<not> ((\<forall>r\<in>set xs. valid_name (nm r)) \<and> distinct (map nm xs))"
  shows "\<exists>j<length xs. passes_before nm xs j \<and>
           (\<not> valid_name (nm (xs ! j)) \<or> (\<exists>i<j. nm (xs ! i) = nm (xs ! j)))"
proof -
  define bad where "bad j \<longleftrightarrow> j < length xs \<and>
      (\<not> valid_name (nm (xs ! j)) \<or> (\<exists>i<j. nm (xs ! i) = nm (xs ! j)))" for j
  have "\<exists>j. bad j"
  proof (cases "\<forall>r\<in>set xs. valid_name (nm r)")
    case False
    then obtain j where "j < length xs" "\<not> valid_name (nm (xs ! j))"
      by (auto simp: in_set_conv_nth)
    then show ?thesis unfolding bad_def by blast
  next
    case True
    with assms have "\<not> distinct (map nm xs)" by simp
    then obtain i j where "i < j" "j < length xs" "nm (xs ! i) = nm (xs ! j)"
      by (auto simp: distinct_conv_nth) (metis nat_neq_iff)
    then show ?thesis unfolding bad_def by blast
  qed
  then obtain j where j: "bad j" and least: "\<forall>k<j. \<not> bad k"
    using exists_least_iff[of bad] by blast
  from j have jl: "j < length xs" by (simp add: bad_def)
  have ok: "valid_name (nm (xs ! k)) \<and> (\<forall>i<k. nm (xs ! i) \<noteq> nm (xs ! k))" if "k < j" for k
    using least that jl unfolding bad_def by force
  have v: "\<forall>r \<in> set (take j xs). valid_name (nm r)"
  proof
    fix r assume "r \<in> set (take j xs)"
    then obtain k where "k < j" "k < length xs" "r = xs ! k"
      by (auto simp: in_set_conv_nth)
    with ok show "valid_name (nm r)" by simp
  qed
  have d: "distinct (map nm (take j xs))"
    unfolding distinct_conv_nth
  proof (intro allI impI)
    fix a b assume a: "a < length (map nm (take j xs))" and b: "b < length (map nm (take j xs))"
      and ab: "a \<noteq> b"
    then have aj: "a < j" and bj: "b < j" by simp_all
    have "nm (xs ! a) \<noteq> nm (xs ! b)"
    proof (cases "a < b")
      case True
      with ok[OF bj] show ?thesis by simp
    next
      case False
      with ab have "b < a" by simp
      with ok[OF aj] show ?thesis by metis
    qed
    with a b show "map nm (take j xs) ! a \<noteq> map nm (take j xs) ! b" by simp
  qed
  from j jl v d show ?thesis unfolding bad_def passes_before_def by blast
qed

text \<open>
  Claim C3, as amended.  The validator returns the dict that maps every name to its
  record exactly when all names are free of spaces and of \<^verbatim>\<open>___\<close> and pairwise
  distinct.  Otherwise there is a first record, in input order, that fails a check while
  the records before it pass every check, and the error is the one of that record:
  \<^const>\<open>InvalidName\<close> with \<^verbatim>\<open>___\<close> when its name contains \<^verbatim>\<open>___\<close>, else
  \<^const>\<open>InvalidName\<close> with a space when its name contains a space, else
  \<^const>\<open>DuplicateName\<close> carrying that record and the earlier record of the same name.
  In particular, with pairwise distinct names and some invalid name the error is an
  \<^const>\<open>InvalidName\<close> for a record of the collection, and with only valid names and a
  repeated name it is a \<^const>\<open>DuplicateName\<close> of two records of the collection.
\<close>

theorem validate_and_map_by_name_amended:
  fixes nm :: "'r \<Rightarrow> string" and xs :: "'r list"
  shows
  "((\<forall>r\<in>set xs. valid_name (nm r)) \<and> distinct (map nm xs) \<longrightarrow>
      validate_and_map_by_name nm xs = Inr (map (\<lambda>r. (nm r, r)) xs)) \<and>
   (\<not> ((\<forall>r\<in>set xs. valid_name (nm r)) \<and> distinct (map nm xs)) \<longrightarrow>
      (\<exists>j<length xs. passes_before nm xs j \<and>
         (\<not> valid_name (nm (xs ! j)) \<or> (\<exists>i<j. nm (xs ! i) = nm (xs ! j))))) \<and>
   (\<forall>j<length xs. passes_before nm xs j \<longrightarrow>
      (sublist ''___'' (nm (xs ! j)) \<longrightarrow>
         validate_and_map_by_name nm xs = Inl (InvalidName (nm (xs ! j)) ''___'')) \<and>
      (\<not> sublist ''___'' (nm (xs ! j)) \<and> sublist '' '' (nm (xs ! j)) \<longrightarrow>
         validate_and_map_by_name nm xs = Inl (InvalidName (nm (xs ! j)) '' '')) \<and>
      (\<forall>i<j. valid_name (nm (xs ! j)) \<and> nm (xs ! i) = nm (xs ! j) \<longrightarrow>
         validate_and_map_by_name nm xs = Inl (DuplicateName (xs ! j) (xs ! i)))) \<and>
   ((\<exists>r\<in>set xs. \<not> valid_name (nm r)) \<or> \<not> distinct (map nm xs) \<longrightarrow>
      (\<exists>e. validate_and_map_by_name nm xs = Inl e)) \<and>
   ((\<exists>r\<in>set xs. \<not> valid_name (nm r)) \<and> distinct (map nm xs) \<longrightarrow>
      (\<exists>r\<in>set xs. \<exists>s. validate_and_map_by_name nm xs = Inl (InvalidName (nm r) s) \<and>
          sublist s (nm r) \<and> (s = ''___'' \<or> s = '' ''))) \<and>
   ((\<forall>r\<in>set xs. valid_name (nm r)) \<and> \<not> distinct (map nm xs) \<longrightarrow>
      (\<exists>i j. i < j \<and> j < length xs \<and> nm (xs ! i) = nm (xs ! j) \<and>
          validate_and_map_by_name nm xs = Inl (DuplicateName (xs ! j) (xs ! i))))"
  using validate_cases[of xs nm] first_failure_exists[of xs nm]
    first_failure_invalid[of _ xs nm] first_failure_duplicate[of _ xs nm]
  by (intro conjI allI impI) blast+

text \<open>
  The amended statement at concrete collections: a well-formed one; one whose second
  record has a triple underscore; one whose only record has a space; and one with a
  repeated name before a name with a space, where the first failing record is the
  second and the error is the duplicate one.
\<close>

theorem validate_and_map_by_name_amended_witness:
  "validate_and_map_by_name default_name [Default ''net.host'' ''x'', Default ''net.url'' ''y'']
     = Inr [(''net.host'', Default ''net.host'' ''x''), (''net.url'', Default ''net.url'' ''y'')] \<and>
   validate_and_map_by_name default_name [Default ''a'' ''0'', Default ''b___c'' ''1'']
     = Inl (InvalidName ''b___c'' ''___'') \<and>
   validate_and_map_by_name default_name [Default ''a b'' ''1'']
     = Inl (InvalidName ''a b'' '' '') \<and>
   validate_and_map_by_name default_name
     [Default ''a'' ''1'', Default ''a'' ''2'', Default ''b c'' ''3'']
     = Inl (DuplicateName (Default ''a'' ''2'') (Default ''a'' ''1'')) \<and>
   passes_before default_name [Default ''a'' ''1'', Default ''a'' ''2'', Default ''b c'' ''3''] 1 \<and>
   \<not> passes_before default_name [Default ''a'' ''1'', Default ''a'' ''2'', Default ''b c'' ''3''] 2"
proof -
  let ?ok = "[Default ''net.host'' ''x'', Default ''net.url'' ''y'']"
  let ?und = "[Default ''a'' ''0'', Default ''b___c'' ''1'']"
  let ?sp = "[Default ''a b'' ''1'']"
  let ?mix = "[Default ''a'' ''1'', Default ''a'' ''2'', Default ''b c'' ''3'']"
  have v: "valid_name ''net.host''" "valid_name ''net.url''" "valid_name ''a''"
    by (simp_all add: valid_name_def sublist_code)
  have u: "sublist ''___'' ''b___c''" "\<not> sublist ''___'' ''a b''" "sublist '' '' ''a b''"
    by (simp_all add: sublist_code)
  have 1: "validate_and_map_by_name default_name ?ok
     = Inr [(''net.host'', Default ''net.host'' ''x''), (''net.url'', Default ''net.url'' ''y'')]"
    using validate_and_map_by_name_amended[where xs = ?ok and nm = default_name,
        THEN conjunct1] v
    by simp
  have p1: "passes_before default_name ?und 1"
    using v by (simp add: passes_before_def)
  have 2: "validate_and_map_by_name default_name ?und = Inl (InvalidName ''b___c'' ''___'')"
    using validate_and_map_by_name_amended[where xs = ?und and nm = default_name,
        THEN conjunct2, THEN conjunct2, THEN conjunct1, rule_format, of 1] p1 u
    by simp
  have p0: "passes_before default_name ?sp 0"
    by (simp add: passes_before_def)
  have 3: "validate_and_map_by_name default_name ?sp = Inl (InvalidName ''a b'' '' '')"
    using validate_and_map_by_name_amended[where xs = ?sp and nm = default_name,
        THEN conjunct2, THEN conjunct2, THEN conjunct1, rule_format, of 0] p0 u
    by simp
  have pm: "passes_before default_name ?mix 1"
    using v by (simp add: passes_before_def)
  have npm: "\<not> passes_before default_name ?mix 2"
    by (simp add: passes_before_def numeral_2_eq_2)
  have 4: "validate_and_map_by_name default_name ?mix
     = Inl (DuplicateName (Default ''a'' ''2'') (Default ''a'' ''1''))"
  proof -
    from validate_and_map_by_name_amended[where xs = ?mix and nm = default_name,
        THEN conjunct2, THEN conjunct2, THEN conjunct1, rule_format, of 1] pm
    have "\<forall>i<1. valid_name (default_name (?mix ! 1)) \<and>
             default_name (?mix ! i) = default_name (?mix ! 1) \<longrightarrow>
             validate_and_map_by_name default_name ?mix
               = Inl (DuplicateName (?mix ! 1) (?mix ! i))"
      by simp
    from this[rule_format, of 0] v show ?thesis by simp
  qed
  from 1 2 3 4 pm npm show ?thesis by blast
qed

text \<open>
  Claim C3 as stated fails: the third record's name contains a space, yet the second
  record is met first and the error is the duplicate one, not the invalid-name one.
\<close>

theorem validate_and_map_by_name_counterexample:
  "sublist '' '' (default_name (Default ''b c'' ''3'')) \<and>
   validate_and_map_by_name default_name
     [Default ''a'' ''1'', Default ''a'' ''2'', Default ''b c'' ''3'']
   = Inl (DuplicateName (Default ''a'' ''2'') (Default ''a'' ''1''))"
  by (simp add: validate_and_map_by_name_def sublist_code)

section \<open>Properties of the template engine\<close>

lemma render_pass_keys: "map fst (render_pass m) = map fst m"
  by (induction m) (auto simp: render_pass_def)

lemma render_pass_map_of:
  "map_of (render_pass m) k = map_option (substitute (map_of m)) (map_of m k)"
proof -
  have "map_of (map (\<lambda>(k, v). (k, f v)) xs) k = map_option f (map_of xs k)" for f and xs :: "(string \<times> string) list"
    by (induction xs) auto
  then show ?thesis by (simp add: render_pass_def)
qed

lemma render_loop_Inr:
  "render_loop n m = Inr m' \<Longrightarrow> map fst m' = map fst m \<and> fully_substituted m'"
proof (induction n arbitrary: m)
  case 0
  then show ?case by (auto simp: Let_def render_pass_keys split: if_splits)
next
  case (Suc n)
  show ?case
  proof (cases "fully_substituted (render_pass m)")
    case True
    with Suc.prems show ?thesis by (auto simp: Let_def render_pass_keys)
  next
    case False
    with Suc.prems have "render_loop n (render_pass m) = Inr m'" by (simp add: Let_def)
    from Suc.IH[OF this] show ?thesis by (simp add: render_pass_keys)
  qed
qed

lemma untokenize:
  "concat (map (expand Map.empty) (tokenize_from st s)) =
     (case st of None \<Rightarrow> s | Some acc \<Rightarrow> ''{{'' @ rev acc @ s)"
  by (induction st s rule: tokenize_from.induct) (auto simp: comp_def)

lemma expand_unknown:
  "\<forall>n \<in> set (concat (map token_refs ts)). m n = None \<Longrightarrow>
   map (expand m) ts = map (expand Map.empty) ts"
proof (induction ts)
  case Nil
  then show ?case by simp
next
  case (Cons t ts)
  then show ?case by (cases t) auto
qed

lemma substitute_unknown:
  assumes "\<forall>n \<in> set (references s). m n = None"
  shows "substitute m s = s"
proof -
  have "map (expand m) (tokenize s) = map (expand Map.empty) (tokenize s)"
    using assms unfolding references_def by (rule expand_unknown)
  then have "substitute m s = concat (map (expand Map.empty) (tokenize_from None s))"
    unfolding substitute_def tokenize_def by (rule arg_cong)
  also have "\<dots> = s" using untokenize[of None s] by simp
  finally show ?thesis .
qed

lemma fully_substituted_iff:
  "fully_substituted m \<longleftrightarrow> (\<forall>(k, v) \<in> set m. \<forall>n \<in> set (references v). map_of m n = None)"
  by (auto simp: fully_substituted_def unresolved_def filter_empty_conv)

lemma render_pass_fixed:
  assumes "fully_substituted m"
  shows "render_pass m = m"
proof -
  have "\<forall>(k, v) \<in> set m. substitute (map_of m) v = v"
    using assms substitute_unknown[of _ "map_of m"] by (auto simp: fully_substituted_iff)
  then have "map (\<lambda>(k, v). (k, substitute (map_of m) v)) m = map (\<lambda>p. p) m"
    by (intro map_cong) auto
  then show ?thesis by (simp add: render_pass_def)
qed

lemma render_loop_fixed: "fully_substituted m \<Longrightarrow> render_loop n m = Inr m"
  by (cases n) (simp_all add: render_pass_fixed)

lemma render_pass_dom: "map_of (render_pass m) n = None \<longleftrightarrow> map_of m n = None"
  by (simp add: render_pass_map_of)

lemma render_pass_keeps:
  assumes "map_of m k = Some v" and "\<forall>n \<in> set (references v). map_of m n = None"
  shows "map_of (render_pass m) k = Some v \<and> (\<forall>n \<in> set (references v). map_of (render_pass m) n = None)"
  using assms by (simp add: render_pass_map_of substitute_unknown)

lemma render_loop_keeps:
  "render_loop n m = Inr m' \<Longrightarrow> map_of m k = Some v \<Longrightarrow>
   \<forall>n \<in> set (references v). map_of m n = None \<Longrightarrow> map_of m' k = Some v"
proof (induction n arbitrary: m)
  case 0
  then show ?case using render_pass_keeps[of m k v] by (auto simp: Let_def split: if_splits)
next
  case (Suc n)
  note keep = render_pass_keeps[OF Suc.prems(2,3)]
  show ?case
  proof (cases "fully_substituted (render_pass m)")
    case True
    with Suc.prems(1) keep show ?thesis by (auto simp: Let_def)
  next
    case False
    with Suc.prems(1) have "render_loop n (render_pass m) = Inr m'" by (simp add: Let_def)
    from Suc.IH[OF this] keep show ?thesis by blast
  qed
qed

text \<open>
  Claim C5.  Template substitution is idempotent: whatever the engine returns is fully
  substituted, and the engine run on a fully substituted mapping (so in particular on
  its own output) returns that mapping unchanged.
\<close>

theorem render_values_in_template_map_idempotent:
  "(render_values_in_template_map m = Inr m' \<longrightarrow>
      fully_substituted m' \<and> render_values_in_template_map m' = Inr m') \<and>
   (fully_substituted m \<longrightarrow> render_values_in_template_map m = Inr m)"
  using render_loop_Inr[of "length m" m m'] render_loop_fixed
  by (auto simp: render_values_in_template_map_def)

text \<open>The engine on the spec's scenario, and again on what it returned.\<close>

theorem render_values_in_template_map_idempotent_witness:
  "render_values_in_template_map
     [(''net.host'', ''x''), (''net.url'', ''http://{{net.host}}/api'')]
     = Inr [(''net.host'', ''x''), (''net.url'', ''http://x/api'')] \<and>
   fully_substituted [(''net.host'', ''x''), (''net.url'', ''http://x/api'')] \<and>
   render_values_in_template_map [(''net.host'', ''x''), (''net.url'', ''http://x/api'')]
     = Inr [(''net.host'', ''x''), (''net.url'', ''http://x/api'')]"
proof -
  have r: "render_values_in_template_map
     [(''net.host'', ''x''), (''net.url'', ''http://{{net.host}}/api'')]
     = Inr [(''net.host'', ''x''), (''net.url'', ''http://x/api'')]"
    by code_simp
  from r render_values_in_template_map_idempotent
    [of "[(''net.host'', ''x''), (''net.url'', ''http://{{net.host}}/api'')]"
        "[(''net.host'', ''x''), (''net.url'', ''http://x/api'')]"]
  show ?thesis by simp
qed

section \<open>Properties of the typo suggester\<close>

lemma close_loop_eq:
  "close_loop word cutoff xs acc
     = acc @ map (\<lambda>x. (ratio x word, x)) (filter (clears word cutoff) xs)"
  by (induction xs arbitrary: acc) (auto simp: clears_def)

lemma nlargest_length: "length (nlargest n xs) \<le> n"
  by (simp add: nlargest_def)

lemma nlargest_subset: "set (nlargest n xs) \<subseteq> set xs"
proof -
  have "set (take n (rev (sort xs))) \<subseteq> set (rev (sort xs))" by (rule set_take_subset)
  then show ?thesis by (simp add: nlargest_def)
qed

lemma nlargest_descending: "sorted_wrt (\<lambda>p q. q \<le> p) (nlargest n xs)"
proof -
  have "sorted_wrt (\<lambda>p q. q \<le> p) (rev (sort xs))"
    by (simp add: sorted_wrt_rev)
  then show ?thesis unfolding nlargest_def by (rule sorted_wrt_take)
qed

lemma nlargest_top:
  assumes "y \<in> set xs"
  shows "y \<in> set (nlargest n xs) \<or>
         (length (nlargest n xs) = n \<and> (\<forall>p \<in> set (nlargest n xs). y \<le> p))"
proof (cases "y \<in> set (nlargest n xs)")
  case True
  then show ?thesis by simp
next
  case False
  let ?s = "rev (sort xs)"
  have split: "?s = take n ?s @ drop n ?s" by simp
  from assms have "y \<in> set ?s" by simp
  with False have yd: "y \<in> set (drop n ?s)"
    by (metis Un_iff nlargest_def set_append split)
  then have len: "n < length ?s" by (cases "n < length ?s") auto
  have "sorted_wrt (\<lambda>p q. q \<le> p) (take n ?s @ drop n ?s)"
    by (simp add: sorted_wrt_rev)
  then have "\<forall>p \<in> set (take n ?s). \<forall>q \<in> set (drop n ?s). q \<le> p"
    unfolding sorted_wrt_append by blast
  with yd have "\<forall>p \<in> set (nlargest n xs). y \<le> p" by (simp add: nlargest_def)
  moreover from len have "length (nlargest n xs) = n" by (simp add: nlargest_def)
  ultimately show ?thesis by simp
qed

lemma nlargest_nonempty:
  assumes "xs \<noteq> []" and "0 < n"
  shows "nlargest n xs \<noteq> []"
proof -
  from assms(1) have "length (rev (sort xs)) \<noteq> 0" by simp
  with assms(2) have "length (take n (rev (sort xs))) \<noteq> 0" by simp
  then show ?thesis unfolding nlargest_def by fastforce
qed

lemma pair_le_fst: "(a, x) \<le> (b, y) \<Longrightarrow> a \<le> (b :: rat)" for x y :: string
  by (auto simp: less_eq_prod_def)

text \<open>
  Claim C7, as amended.  For every key and every list of default names the typo suggester
  returns at most 3 names; each of them is a default name whose ratio to the key is at
  least the cutoff 0.6; they are ordered best first; the result is empty when no default
  name has a ratio of at least 0.6; and a default name that clears the cutoff is either
  returned or outscored by three returned names.  For the key \<^verbatim>\<open>hots.name\<close> with
  \<^verbatim>\<open>host.name\<close> among the defaults the result is not empty, and it contains
  \<^verbatim>\<open>host.name\<close> unless it consists of three names whose ratio is at least that of
  \<^verbatim>\<open>host.name\<close>, which is 8/9.
\<close>

theorem get_close_matches_amended:
  "\<exists>ms. get_close_matches key names 3 (6 / 10) = Inr ms \<and>
     length ms \<le> 3 \<and>
     (\<forall>m \<in> set ms. m \<in> set names \<and> ratio m key \<ge> 6 / 10) \<and>
     sorted_wrt (\<lambda>m m'. ratio m' key \<le> ratio m key) ms \<and>
     ((\<forall>n \<in> set names. ratio n key < 6 / 10) \<longrightarrow> ms = []) \<and>
     (\<forall>n \<in> set names. clears key (6 / 10) n \<longrightarrow>
        n \<in> set ms \<or> (length ms = 3 \<and> (\<forall>m \<in> set ms. ratio n key \<le> ratio m key))) \<and>
     (key = ''hots.name'' \<and> ''host.name'' \<in> set names \<longrightarrow>
        ms \<noteq> [] \<and>
        (''host.name'' \<in> set ms \<or> (length ms = 3 \<and> (\<forall>m \<in> set ms. 8 / 9 \<le> ratio m key))))"
proof -
  define res where "res = map (\<lambda>x. (ratio x key, x)) (filter (clears key (6 / 10)) names)"
  define top where "top = nlargest 3 res"
  define ms where "ms = map snd top"
  have run: "get_close_matches key names 3 (6 / 10) = Inr ms"
    by (simp add: get_close_matches_def close_loop_eq ms_def top_def res_def)
  have sub: "set top \<subseteq> set res" unfolding top_def by (rule nlargest_subset)
  have form: "p = (ratio (snd p) key, snd p) \<and> snd p \<in> set names \<and> clears key (6 / 10) (snd p)"
    if "p \<in> set top" for p
    using that sub by (auto simp: res_def)
  have top_eq: "top = map (\<lambda>m. (ratio m key, m)) ms"
    unfolding ms_def using form by (induction top) auto
  have 1: "length ms \<le> 3" unfolding ms_def top_def using nlargest_length[of 3 res] by simp
  have 2: "\<forall>m \<in> set ms. m \<in> set names \<and> ratio m key \<ge> 6 / 10"
    unfolding ms_def using form by (auto simp: clears_def)
  have "sorted_wrt (\<lambda>p q. q \<le> p) (map (\<lambda>m. (ratio m key, m)) ms)"
    using nlargest_descending[of 3 res] by (simp add: top_def[symmetric] top_eq)
  then have 3: "sorted_wrt (\<lambda>m m'. ratio m' key \<le> ratio m key) ms"
    unfolding sorted_wrt_map by (rule sorted_wrt_mono_rel[rotated]) (auto dest: pair_le_fst)
  have 4: "ms = []" if "\<forall>n \<in> set names. ratio n key < 6 / 10"
  proof -
    from that have "filter (clears key (6 / 10)) names = []"
      by (auto simp: filter_empty_conv clears_def)
    then show ?thesis by (simp add: ms_def top_def res_def nlargest_def)
  qed
  have 5: "n \<in> set ms \<or> (length ms = 3 \<and> (\<forall>m \<in> set ms. ratio n key \<le> ratio m key))"
    if "n \<in> set names" and "clears key (6 / 10) n" for n
  proof -
    from that have "(ratio n key, n) \<in> set res" by (auto simp: res_def)
    from nlargest_top[OF this, of 3]
    consider "(ratio n key, n) \<in> set top"
      | "length top = 3" "\<forall>p \<in> set top. (ratio n key, n) \<le> p"
      unfolding top_def by blast
    then show ?thesis
    proof cases
      case 1
      then have "n \<in> set ms" unfolding ms_def by force
      then show ?thesis by simp
    next
      case 2
      from 2(1) have "length ms = 3" by (simp add: ms_def)
      moreover have "ratio n key \<le> ratio m key" if "m \<in> set ms" for m
      proof -
        from that have "(ratio m key, m) \<in> set top" unfolding top_eq by auto
        with 2(2) have "(ratio n key, n) \<le> (ratio m key, m)" by blast
        then show ?thesis by (rule pair_le_fst)
      qed
      ultimately show ?thesis by blast
    qed
  qed
  have host: "clears ''hots.name'' (6 / 10) ''host.name''" by code_simp
  have score: "ratio ''host.name'' ''hots.name'' = 8 / 9" by code_simp
  have 6: "ms \<noteq> [] \<and>
        (''host.name'' \<in> set ms \<or> (length ms = 3 \<and> (\<forall>m \<in> set ms. 8 / 9 \<le> ratio m key)))"
    if k: "key = ''hots.name''" and h: "''host.name'' \<in> set names"
  proof
    from h host k have "(ratio ''host.name'' key, ''host.name'') \<in> set res" by (auto simp: res_def)
    then have "res \<noteq> []" by auto
    then have "top \<noteq> []" unfolding top_def by (rule nlargest_nonempty) simp
    then show "ms \<noteq> []" by (simp add: ms_def)
  next
    from 5[OF h] host k score
    show "''host.name'' \<in> set ms \<or> (length ms = 3 \<and> (\<forall>m \<in> set ms. 8 / 9 \<le> ratio m key))"
      by auto
  qed
  from run 1 2 3 4 5 6 show ?thesis by blast
qed

text \<open>The suggester on the key \<^verbatim>\<open>hots.name\<close> with two default names.\<close>

theorem get_close_matches_amended_witness:
  "get_close_matches ''hots.name'' [''host.name'', ''net.port''] 3 (6 / 10) = Inr [''host.name''] \<and>
   ''host.name'' \<in> set [''host.name'', ''net.port''] \<and>
   clears ''hots.name'' (6 / 10) ''host.name'' \<and>
   ratio ''host.name'' ''hots.name'' \<ge> 6 / 10 \<and>
   ratio ''net.port'' ''hots.name'' < 6 / 10"
proof -
  have run: "get_close_matches ''hots.name'' [''host.name'', ''net.port''] 3 (6 / 10)
      = Inr [''host.name'']"
    by code_simp
  have c: "clears ''hots.name'' (6 / 10) ''host.name''" by code_simp
  have low: "ratio ''net.port'' ''hots.name'' < 6 / 10" by code_simp
  from get_close_matches_amended[of "''hots.name''" "[''host.name'', ''net.port'']"] run
  have "ratio ''host.name'' ''hots.name'' \<ge> 6 / 10" by auto
  with run c low show ?thesis by simp
qed

text \<open>
  Claim C7 as stated fails in its example: with three default names closer to the key
  than \<^verbatim>\<open>host.name\<close>, the three returned names do not include \<^verbatim>\<open>host.name\<close>.
\<close>

theorem get_close_matches_counterexample:
  "get_close_matches ''hots.name''
     [''host.name'', ''hots.name1'', ''hots.name2'', ''hots.name3''] 3 (6 / 10)
   = Inr [''hots.name3'', ''hots.name2'', ''hots.name1''] \<and>
   ''host.name'' \<notin> set [''hots.name3'', ''hots.name2'', ''hots.name1'']"
  by code_simp

section \<open>Properties of the resolution\<close>

lemma validate_Inr_eq:
  assumes "validate_and_map_by_name nm xs = Inr m"
  shows "m = map (\<lambda>r. (nm r, r)) xs \<and> distinct (map nm xs) \<and> (\<forall>r\<in>set xs. valid_name (nm r))"
proof -
  from assms have l: "validate_loop nm [] xs = Inr m" by (simp add: validate_and_map_by_name_def)
  from validate_loop_Inr[OF l] have c: "\<forall>r\<in>set xs. valid_name (nm r)" "distinct (map nm xs)" by auto
  from validate_loop_ok[of xs nm "[]"] c l show ?thesis by simp
qed

lemma map_of_overrides:
  "map_of (map (\<lambda>r. (override_name r, r)) (map (\<lambda>(n, v). Override n v) items)) n
     = map_option (Override n) (map_of items n)"
  by (induction items) auto

lemma get_items_Inr:
  "get_items f s = (Inr items, s') \<Longrightarrow> items = store_items s \<and> store_items s' = store_items s"
  by (auto simp: get_items_def create_new_def store_items_def split: option.splits if_splits)

lemma get_overrides_Inr:
  assumes "get_overrides f s = (Inr ovs, s')"
  shows "ovs = map (\<lambda>(n, v). Override n v) (store_items s) \<and> store_items s' = store_items s"
proof -
  obtain r s1 where b: "get_items f (s\<lparr>lock_held := True, events := events s @ [Acquire]\<rparr>) = (r, s1)"
    by (cases "get_items f (s\<lparr>lock_held := True, events := events s @ [Acquire]\<rparr>)")
  from assms b obtain items where r: "r = Inr items"
    by (cases r) (auto simp: get_overrides_def with_ProtectedFilePath_def split: if_splits)
  from get_items_Inr[OF b[unfolded r]]
  have i: "items = store_items s" "store_items s1 = store_items s" by (simp_all add: store_items_def)
  from assms b r have "ovs = map (\<lambda>(n, v). Override n v) items"
    and "s' = s1\<lparr>lock_held := False, events := events s1 @ [Release]\<rparr>"
    by (auto simp: get_overrides_def with_ProtectedFilePath_def split: if_splits)
  with i show ?thesis by (simp add: store_items_def)
qed

lemma merge_loop_eq:
  "distinct (map fst items) \<Longrightarrow>
   \<forall>n \<in> fst ` set items. map_of av n = None \<and> map_of dd n = None \<Longrightarrow>
   merge_loop ov items (av, dd) = (av @ map (mval ov) items, dd @ filter (mdiff ov) items)"
proof (induction items arbitrary: av dd)
  case Nil
  then show ?case by simp
next
  case (Cons p items)
  obtain n d where p: "p = (n, d)" by (cases p)
  from Cons.prems p have fresh: "map_of av n = None" "map_of dd n = None" by auto
  from Cons.prems p have nn: "\<forall>k \<in> fst ` set items. k \<noteq> n" by auto
  have d: "distinct (map fst items)" using Cons.prems(1) by simp
  have rest: "\<forall>k \<in> fst ` set items. map_of (av @ [(n, x)]) k = None \<and> map_of (dd @ [(n, y)]) k = None
      \<and> map_of dd k = None" for x y
    using Cons.prems(2) nn by (auto simp: map_add_def)
  show ?case
  proof (cases "map_of ov n")
    case None
    have "merge_loop ov (p # items) (av, dd) = merge_loop ov items (av @ [(n, default_value d)], dd)"
      using None p fresh by (simp add: update_fresh)
    also have "\<dots> = ((av @ [(n, default_value d)]) @ map (mval ov) items, dd @ filter (mdiff ov) items)"
      using rest[of "default_value d" d] by (intro Cons.IH[OF d]) simp
    finally show ?thesis using None p by (simp add: mval_def mdiff_def)
  next
    case (Some v)
    show ?thesis
    proof (cases "override_value v \<noteq> default_value d")
      case True
      have "merge_loop ov (p # items) (av, dd)
          = merge_loop ov items (av @ [(n, override_value v)], dd @ [(n, d)])"
        using Some True p fresh by (simp add: update_fresh)
      also have "\<dots> = ((av @ [(n, override_value v)]) @ map (mval ov) items,
          (dd @ [(n, d)]) @ filter (mdiff ov) items)"
        using rest[of "override_value v" d] by (intro Cons.IH[OF d]) simp
      finally show ?thesis using Some True p by (simp add: mval_def mdiff_def)
    next
      case False
      have "merge_loop ov (p # items) (av, dd) = merge_loop ov items (av @ [(n, default_value d)], dd)"
        using Some False p fresh by (simp add: update_fresh)
      also have "\<dots> = ((av @ [(n, default_value d)]) @ map (mval ov) items, dd @ filter (mdiff ov) items)"
        using rest[of "default_value d" d] by (intro Cons.IH[OF d]) simp
      finally show ?thesis using Some False p by (simp add: mval_def mdiff_def)
    qed
  qed
qed

lemma map_of_filter_distinct:
  "distinct (map fst xs) \<Longrightarrow> (k, v) \<in> set xs \<Longrightarrow>
   map_of (filter P xs) k = (if P (k, v) then Some v else None)"
proof (induction xs)
  case Nil
  then show ?case by simp
next
  case (Cons x xs)
  show ?case
  proof (cases "x = (k, v)")
    case True
    from Cons.prems(1) True have "k \<notin> fst ` set xs" by auto
    then have "k \<notin> fst ` set (filter P xs)" by auto
    then have "map_of (filter P xs) k = None" by (simp add: map_of_eq_None_iff)
    with True show ?thesis by simp
  next
    case False
    with Cons.prems have in_xs: "(k, v) \<in> set xs" by auto
    with Cons.prems(1) have "fst x \<noteq> k" by (cases x) (auto simp: image_iff)
    moreover from Cons.IH in_xs Cons.prems(1)
    have "map_of (filter P xs) k = (if P (k, v) then Some v else None)" by simp
    ultimately show ?thesis by (cases x) auto
  qed
qed

text \<open>What a successful resolution computed, step by step.\<close>

lemma resolve_Inr:
  assumes "get_active_values_and_metadata self f s = (Inr (active, ds, dd), s')"
  defines "stored \<equiv> map_of (store_items s)"
  shows "distinct (map default_name (defaults self))"
    and "render_values_in_template_map
           (map (\<lambda>d. (default_name d, merged_value stored d)) (defaults self)) = Inr active"
    and "dd = map (\<lambda>d. (default_name d, d)) (filter (override_differs stored) (defaults self))"
    and "\<exists>sbn. validate_and_map_by_name suggestion_name (suggestions self) = Inr sbn \<and>
           ds = suggestion_loop sbn active []"
    and "store_items s' = store_items s"
proof -
  from assms(1) obtain dbn where dbn: "validate_and_map_by_name default_name (defaults self) = Inr dbn"
    by (cases "validate_and_map_by_name default_name (defaults self)")
       (auto simp: get_active_values_and_metadata_def)
  obtain r1 s1 where go: "get_overrides f s = (r1, s1)" by (cases "get_overrides f s")
  from assms(1) dbn go obtain ovs where r1: "r1 = Inr ovs"
    by (cases r1) (auto simp: get_active_values_and_metadata_def)
  from assms(1) dbn go r1 obtain obn where obn: "validate_and_map_by_name override_name ovs = Inr obn"
    by (cases "validate_and_map_by_name override_name ovs")
       (auto simp: get_active_values_and_metadata_def)
  from assms(1) dbn go r1 obn obtain sbn
    where sbn: "validate_and_map_by_name suggestion_name (suggestions self) = Inr sbn"
    by (cases "validate_and_map_by_name suggestion_name (suggestions self)")
       (auto simp: get_active_values_and_metadata_def)
  obtain mv md where ml: "merge_loop obn dbn ([], []) = (mv, md)"
    by (cases "merge_loop obn dbn ([], [])")
  from assms(1) dbn go r1 obn sbn ml
  have rend: "render_values_in_template_map mv = Inr active"
    and ds: "ds = suggestion_loop sbn active []" and dd: "dd = md" and s': "s' = s1"
    by (auto simp: get_active_values_and_metadata_def split: sum.splits)
  from validate_Inr_eq[OF dbn]
  have dbn_eq: "dbn = map (\<lambda>r. (default_name r, r)) (defaults self)"
    and dist: "distinct (map default_name (defaults self))" by auto
  from get_overrides_Inr[OF go[unfolded r1]]
  have ovs: "ovs = map (\<lambda>(n, v). Override n v) (store_items s)"
    and items: "store_items s1 = store_items s" by auto
  from validate_Inr_eq[OF obn] have obn_eq: "obn = map (\<lambda>r. (override_name r, r)) ovs" by simp
  have look: "map_of obn n = map_option (Override n) (stored n)" for n
    unfolding obn_eq ovs stored_def by (rule map_of_overrides)
  have "distinct (map fst dbn)" using dist by (simp add: dbn_eq comp_def)
  from merge_loop_eq[OF this, of "[]" "[]" obn] ml
  have mv: "mv = map (mval obn) dbn" and md: "md = filter (mdiff obn) dbn" by auto
  have "mv = map (\<lambda>d. (default_name d, merged_value stored d)) (defaults self)"
    unfolding mv dbn_eq
    by (auto simp: mval_def merged_value_def look split: option.splits)
  with rend show "render_values_in_template_map
           (map (\<lambda>d. (default_name d, merged_value stored d)) (defaults self)) = Inr active"
    by simp
  have "mdiff obn (default_name d, d) = override_differs stored d" for d
    by (auto simp: mdiff_def override_differs_def look split: option.splits)
  then have "md = map (\<lambda>d. (default_name d, d)) (filter (override_differs stored) (defaults self))"
    unfolding md dbn_eq by (simp add: filter_map comp_def)
  with dd show "dd = map (\<lambda>d. (default_name d, d)) (filter (override_differs stored) (defaults self))"
    by simp
  from dist show "distinct (map default_name (defaults self))" .
  from sbn ds show "\<exists>sbn. validate_and_map_by_name suggestion_name (suggestions self) = Inr sbn \<and>
           ds = suggestion_loop sbn active []" by blast
  from s' items show "store_items s' = store_items s" by simp
qed

lemma suggestion_loop_map_of:
  "distinct (map fst items) \<Longrightarrow>
   map_of (suggestion_loop sbn items acc) n =
     (case map_of items n of
        Some v \<Rightarrow> (case map_of sbn n of
                     Some sg \<Rightarrow> if suggestion_value sg \<noteq> v then Some sg else map_of acc n
                   | None \<Rightarrow> map_of acc n)
      | None \<Rightarrow> map_of acc n)"
proof (induction items arbitrary: acc)
  case Nil
  then show ?case by simp
next
  case (Cons p items)
  obtain k v where p: "p = (k, v)" by (cases p)
  from Cons.prems p have d: "distinct (map fst items)" and k: "map_of items k = None"
    by (auto simp: map_of_eq_None_iff)
  note ih = Cons.IH[OF d]
  show ?case
  proof (cases "n = k")
    case True
    then show ?thesis using p k ih by (auto simp: update_conv' split: option.splits)
  next
    case False
    then show ?thesis using p ih by (auto simp: update_conv' split: option.splits)
  qed
qed

lemma resolve_keys:
  assumes "get_active_values_and_metadata self f s = (Inr (active, ds, dd), s')"
  shows "map fst active = map default_name (defaults self)"
proof -
  from resolve_Inr(2)[OF assms]
  have "render_loop (length (defaults self))
          (map (\<lambda>d. (default_name d, merged_value (map_of (store_items s)) d)) (defaults self))
        = Inr active"
    by (simp add: render_values_in_template_map_def)
  from render_loop_Inr[OF this] show ?thesis by (simp add: comp_def)
qed

lemma resolve_plain:
  assumes r: "get_active_values_and_metadata self f s = (Inr (active, ds, dd), s')"
    and d: "d \<in> set (defaults self)"
    and plain: "plain_for self (merged_value (map_of (store_items s)) d)"
  shows "map_of active (default_name d) = Some (merged_value (map_of (store_items s)) d)"
proof -
  let ?merged = "map (\<lambda>d. (default_name d, merged_value (map_of (store_items s)) d)) (defaults self)"
  from resolve_Inr(2)[OF r]
  have loop: "render_loop (length (defaults self)) ?merged = Inr active"
    by (simp add: render_values_in_template_map_def)
  have dist: "distinct (map fst ?merged)" using resolve_Inr(1)[OF r] by (simp add: comp_def)
  have "(default_name d, merged_value (map_of (store_items s)) d) \<in> set ?merged" using d by auto
  with dist have look: "map_of ?merged (default_name d) = Some (merged_value (map_of (store_items s)) d)"
    by (rule map_of_is_SomeI)
  have "\<forall>n \<in> set (references (merged_value (map_of (store_items s)) d)). map_of ?merged n = None"
    using plain by (auto simp: plain_for_def map_of_eq_None_iff image_iff)
  from render_loop_keeps[OF loop look this] show ?thesis .
qed

lemma suggestion_loop_no_suggestions: "suggestion_loop [] items acc = acc"
  by (induction items arbitrary: acc) auto

lemma resolve_characterised:
  assumes "get_active_values_and_metadata self f s = (Inr (active, ds, dd), s')"
  shows "map fst active = map default_name (defaults self) \<and>
     distinct (map fst active) \<and>
     render_values_in_template_map
       (map (\<lambda>d. (default_name d, merged_value (map_of (store_items s)) d)) (defaults self))
       = Inr active \<and>
     (\<forall>d \<in> set (defaults self).
        map_of dd (default_name d)
          = (if override_differs (map_of (store_items s)) d then Some d else None) \<and>
        (plain_for self (merged_value (map_of (store_items s)) d) \<longrightarrow>
           map_of active (default_name d) = Some (merged_value (map_of (store_items s)) d))) \<and>
     (\<forall>n. n \<notin> default_name ` set (defaults self) \<longrightarrow>
        map_of active n = None \<and> map_of dd n = None)"
proof -
  note keys = resolve_keys[OF assms]
  note dist = resolve_Inr(1)[OF assms]
  note dd = resolve_Inr(3)[OF assms]
  let ?items = "map (\<lambda>d. (default_name d, d)) (defaults self)"
  let ?P = "\<lambda>(n, d). override_differs (map_of (store_items s)) d"
  have dd': "dd = filter ?P ?items" unfolding dd by (simp add: filter_map comp_def)
  have di: "distinct (map fst ?items)" using dist by (simp add: comp_def)
  have a: "map_of dd (default_name d)
      = (if override_differs (map_of (store_items s)) d then Some d else None)"
    if "d \<in> set (defaults self)" for d
  proof -
    from that have "(default_name d, d) \<in> set ?items" by auto
    from map_of_filter_distinct[OF di this, of ?P] show ?thesis unfolding dd' by simp
  qed
  have b: "map_of active n = None \<and> map_of dd n = None"
    if "n \<notin> default_name ` set (defaults self)" for n
  proof -
    from that keys have "n \<notin> fst ` set active" by (metis list.set_map)
    moreover from that have "n \<notin> fst ` set dd" unfolding dd by (auto simp: image_iff)
    ultimately show ?thesis by (simp add: map_of_eq_None_iff)
  qed
  show ?thesis
    using keys dist resolve_Inr(2)[OF assms] a b resolve_plain[OF assms] by simp
qed

lemma delete_override_NoFault:
  "\<exists>s'. delete_override key NoFault s = (Inr (), s') \<and>
        store_items s' = sort_key fst (AList.delete key (store_items s)) \<and> \<not> lock_held s'"
  by (cases "file_lines s")
     (simp_all add: delete_override_def with_ProtectedFilePath_def delete_key_def get_items_def
        create_new_def replace_items_def store_items_def)

lemma map_of_sorted_delete:
  "map_of (sort_key fst (AList.delete key items)) key = None"
  by (simp add: map_of_eq_None_iff delete_notin_dom)

text \<open>
  Claim C1, as amended.  When the resolution returns, \<^verbatim>\<open>active\<close> has exactly one
  entry per default name, in the order of the defaults, and no other; it is the template
  engine's rendering of the merged mapping, in which a default's name has the override's
  value when a stored override of that name differs from the default and the default's
  value otherwise.  \<^verbatim>\<open>differingDefaults\<close> holds the default record in the first
  case and nothing for the name in the second.  When the merged value of a name refers to
  no default name, \<^verbatim>\<open>active\<close> holds that very value.  A name that is no default
  name, such as one present only as an override, is in neither mapping.
\<close>

theorem resolve_active_amended:
  assumes "get_active_values_and_metadata self f s = (Inr (active, ds, dd), s')"
  shows "map fst active = map default_name (defaults self) \<and>
     distinct (map fst active) \<and>
     render_values_in_template_map
       (map (\<lambda>d. (default_name d, merged_value (map_of (store_items s)) d)) (defaults self))
       = Inr active \<and>
     (\<forall>d \<in> set (defaults self).
        map_of dd (default_name d)
          = (if override_differs (map_of (store_items s)) d then Some d else None) \<and>
        (plain_for self (merged_value (map_of (store_items s)) d) \<longrightarrow>
           map_of active (default_name d) = Some (merged_value (map_of (store_items s)) d))) \<and>
     (\<forall>n. n \<notin> default_name ` set (defaults self) \<longrightarrow>
        map_of active n = None \<and> map_of dd n = None)"
  using resolve_characterised[OF assms] .

text \<open>
  A run with an override that differs from its default, a default without override and
  an override whose name is no default name.
\<close>

theorem resolve_active_amended_witness:
  "get_active_values_and_metadata
     \<lparr>defaults = [Default ''net.host'' ''x'', Default ''net.port'' ''80''],
      suggestions = [], docs = []\<rparr> NoFault
     \<lparr>file_lines = Some [(''net.host'', ''y''), (''old.key'', ''1'')], temp_lines = None,
      lock_held = False, events = []\<rparr>
   = (Inr ([(''net.host'', ''y''), (''net.port'', ''80'')], [],
           [(''net.host'', Default ''net.host'' ''x'')]),
      \<lparr>file_lines = Some [(''net.host'', ''y''), (''old.key'', ''1'')], temp_lines = None,
       lock_held = False, events = [Acquire, Read, Release]\<rparr>) \<and>
   map fst [(''net.host'', ''y''), (''net.port'', ''80'')] = [''net.host'', ''net.port''] \<and>
   map_of [(''net.host'', ''y''), (''net.port'', ''80'')] ''old.key'' = None"
proof -
  let ?self = "\<lparr>defaults = [Default ''net.host'' ''x'', Default ''net.port'' ''80''],
      suggestions = [], docs = []\<rparr>"
  let ?s = "\<lparr>file_lines = Some [(''net.host'', ''y''), (''old.key'', ''1'')], temp_lines = None,
      lock_held = False, events = []\<rparr>"
  have run: "get_active_values_and_metadata ?self NoFault ?s
   = (Inr ([(''net.host'', ''y''), (''net.port'', ''80'')], [],
           [(''net.host'', Default ''net.host'' ''x'')]),
      \<lparr>file_lines = Some [(''net.host'', ''y''), (''old.key'', ''1'')], temp_lines = None,
       lock_held = False, events = [Acquire, Read, Release]\<rparr>)"
    by code_simp
  from resolve_active_amended[OF run] run show ?thesis by simp
qed

text \<open>
  Claim C1 as stated fails where a value holds a template reference: with no override
  at all, \<^verbatim>\<open>active\<close> does not hold the default's value for \<^verbatim>\<open>net.url\<close> but its
  rendering.
\<close>

theorem resolve_active_counterexample:
  "fst (get_active_values_and_metadata
     \<lparr>defaults = [Default ''net.host'' ''x'', Default ''net.url'' ''http://{{net.host}}/api''],
      suggestions = [], docs = []\<rparr> NoFault
     \<lparr>file_lines = None, temp_lines = None, lock_held = False, events = []\<rparr>)
   = Inr ([(''net.host'', ''x''), (''net.url'', ''http://x/api'')], [], []) \<and>
   map_of [(''net.host'', ''x''), (''net.url'', ''http://x/api'')] ''net.url''
     \<noteq> Some (default_value (Default ''net.url'' ''http://{{net.host}}/api''))"
  by code_simp

text \<open>
  Claim C6.  For every name of the returned \<^verbatim>\<open>active\<close> mapping, with its rendered
  value, \<^verbatim>\<open>differingSuggestions\<close> contains the name if and only if some suggestion has
  that name and a value different from the rendered one; what it holds for a name is that
  suggestion, and it holds nothing for a name outside \<^verbatim>\<open>active\<close>.  The suggestions
  change no active value: without them the resolution returns the same \<^verbatim>\<open>active\<close>
  and the same \<^verbatim>\<open>differingDefaults\<close>.
\<close>

theorem differing_suggestions:
  assumes "get_active_values_and_metadata self f s = (Inr (active, ds, dd), s')"
  shows "(\<forall>(n, v) \<in> set active.
            n \<in> fst ` set ds \<longleftrightarrow>
            (\<exists>sg \<in> set (suggestions self). suggestion_name sg = n \<and> suggestion_value sg \<noteq> v)) \<and>
         (\<forall>n sg. map_of ds n = Some sg \<longrightarrow>
            sg \<in> set (suggestions self) \<and> suggestion_name sg = n \<and> n \<in> fst ` set active) \<and>
         get_active_values_and_metadata (self\<lparr>suggestions := []\<rparr>) f s
           = (Inr (active, [], dd), s')"
proof -
  from resolve_Inr(4)[OF assms] obtain sbn
    where sbn: "validate_and_map_by_name suggestion_name (suggestions self) = Inr sbn"
      and ds: "ds = suggestion_loop sbn active []" by blast
  from validate_Inr_eq[OF sbn]
  have sbn_eq: "sbn = map (\<lambda>r. (suggestion_name r, r)) (suggestions self)"
    and sdist: "distinct (map suggestion_name (suggestions self))" by auto
  have adist: "distinct (map fst active)"
    using resolve_keys[OF assms] resolve_Inr(1)[OF assms] by simp
  have look: "map_of ds n =
     (case map_of active n of
        Some v \<Rightarrow> (case map_of sbn n of
                     Some sg \<Rightarrow> if suggestion_value sg \<noteq> v then Some sg else None
                   | None \<Rightarrow> None)
      | None \<Rightarrow> None)" for n
    unfolding ds using suggestion_loop_map_of[OF adist, of sbn "[]" n]
    by (simp split: option.splits)
  have sg: "map_of sbn n = Some r \<longleftrightarrow> r \<in> set (suggestions self) \<and> suggestion_name r = n" for n r
    unfolding sbn_eq by (rule map_of_by_name[OF sdist])
  have 1: "n \<in> fst ` set ds \<longleftrightarrow>
            (\<exists>sg \<in> set (suggestions self). suggestion_name sg = n \<and> suggestion_value sg \<noteq> v)"
    if "(n, v) \<in> set active" for n v
  proof -
    from that adist have a: "map_of active n = Some v" by (simp add: map_of_is_SomeI)
    have "n \<in> fst ` set ds \<longleftrightarrow> map_of ds n \<noteq> None" by (simp add: map_of_eq_None_iff)
    also have "\<dots> \<longleftrightarrow> (\<exists>r. map_of sbn n = Some r \<and> suggestion_value r \<noteq> v)"
      unfolding look a by (auto split: option.splits)
    also have "\<dots> \<longleftrightarrow> (\<exists>sg \<in> set (suggestions self). suggestion_name sg = n \<and> suggestion_value sg \<noteq> v)"
      unfolding sg by blast
    finally show ?thesis .
  qed
  have 2: "sg \<in> set (suggestions self) \<and> suggestion_name sg = n \<and> n \<in> fst ` set active"
    if "map_of ds n = Some sg" for n sg
  proof -
    from that look[of n] obtain v where a: "map_of active n = Some v" and "map_of sbn n = Some sg"
      by (auto split: option.splits if_splits)
    moreover have "n \<in> fst ` set active" using map_of_SomeD[OF a] by force
    ultimately show ?thesis using sg[of n sg] by simp
  qed
  have 3: "get_active_values_and_metadata (self\<lparr>suggestions := []\<rparr>) f s
           = (Inr (active, [], dd), s')"
    using assms
    by (auto simp: get_active_values_and_metadata_def validate_and_map_by_name_def
             suggestion_loop_no_suggestions split: sum.splits prod.splits)
  from 1 2 3 show ?thesis by blast
qed

text \<open>
  A run with a suggestion that differs from the active value and one that equals the
  rendered value, and the same run without suggestions.
\<close>

theorem differing_suggestions_witness:
  "get_active_values_and_metadata
     \<lparr>defaults = [Default ''net.host'' ''x'', Default ''net.url'' ''http://{{net.host}}/api''],
      suggestions = [Suggestion ''net.host'' ''z'' ''closer'',
                     Suggestion ''net.url'' ''http://x/api'' ''same''],
      docs = []\<rparr> NoFault
     \<lparr>file_lines = Some [], temp_lines = None, lock_held = False, events = []\<rparr>
   = (Inr ([(''net.host'', ''x''), (''net.url'', ''http://x/api'')],
           [(''net.host'', Suggestion ''net.host'' ''z'' ''closer'')], []),
      \<lparr>file_lines = Some [], temp_lines = None, lock_held = False,
       events = [Acquire, Read, Release]\<rparr>) \<and>
   get_active_values_and_metadata
     \<lparr>defaults = [Default ''net.host'' ''x'', Default ''net.url'' ''http://{{net.host}}/api''],
      suggestions = [], docs = []\<rparr> NoFault
     \<lparr>file_lines = Some [], temp_lines = None, lock_held = False, events = []\<rparr>
   = (Inr ([(''net.host'', ''x''), (''net.url'', ''http://x/api'')], [], []),
      \<lparr>file_lines = Some [], temp_lines = None, lock_held = False,
       events = [Acquire, Read, Release]\<rparr>)"
proof -
  let ?self = "\<lparr>defaults = [Default ''net.host'' ''x'', Default ''net.url'' ''http://{{net.host}}/api''],
      suggestions = [Suggestion ''net.host'' ''z'' ''closer'',
                     Suggestion ''net.url'' ''http://x/api'' ''same''],
      docs = []\<rparr>"
  let ?s = "\<lparr>file_lines = Some [], temp_lines = None, lock_held = False, events = []\<rparr>"
  have run: "get_active_values_and_metadata ?self NoFault ?s
   = (Inr ([(''net.host'', ''x''), (''net.url'', ''http://x/api'')],
           [(''net.host'', Suggestion ''net.host'' ''z'' ''closer'')], []),
      \<lparr>file_lines = Some [], temp_lines = None, lock_held = False,
       events = [Acquire, Read, Release]\<rparr>)"
    by code_simp
  from differing_suggestions[OF run] run show ?thesis by simp
qed

text \<open>
  Claim C8, as amended.  After \<^verbatim>\<open>delete_override\<close> on the name of a default the
  store holds no override of that name, so a resolution that returns gives the name the
  rendering of the default's value: the merged value is the default's value, the name is
  absent from \<^verbatim>\<open>differingDefaults\<close>, and \<^verbatim>\<open>active\<close> holds the default's value
  itself when that value refers to no default name.  Deleting a name with no stored
  override is not an error and leaves the stored entries as they were.
\<close>

theorem delete_then_resolve_amended:
  assumes "d \<in> set (defaults self)"
    and "delete_override (default_name d) NoFault s = (r, s1)"
    and "get_active_values_and_metadata self f s1 = (Inr (active, ds, dd), s2)"
  shows "r = Inr () \<and>
     map_of (store_items s1) (default_name d) = None \<and>
     render_values_in_template_map
       (map (\<lambda>d. (default_name d, merged_value (map_of (store_items s1)) d)) (defaults self))
       = Inr active \<and>
     merged_value (map_of (store_items s1)) d = default_value d \<and>
     map_of dd (default_name d) = None \<and>
     (plain_for self (default_value d) \<longrightarrow>
        map_of active (default_name d) = Some (default_value d)) \<and>
     (\<forall>key s. map_of (store_items s) key = None \<longrightarrow>
        fst (delete_override key NoFault s) = Inr () \<and>
        set (store_items (snd (delete_override key NoFault s))) = set (store_items s))"
proof -
  from delete_override_NoFault[of "default_name d" s] assms(2)
  have r: "r = Inr ()"
    and items: "store_items s1 = sort_key fst (AList.delete (default_name d) (store_items s))"
    by auto
  have gone: "map_of (store_items s1) (default_name d) = None"
    unfolding items by (rule map_of_sorted_delete)
  then have mv: "merged_value (map_of (store_items s1)) d = default_value d"
    and nd: "\<not> override_differs (map_of (store_items s1)) d"
    by (simp_all add: merged_value_def override_differs_def)
  note c1 = resolve_characterised[OF assms(3)]
  from c1 assms(1) nd have dd: "map_of dd (default_name d) = None" by simp
  from c1 assms(1) mv
  have pl: "plain_for self (default_value d) \<longrightarrow>
        map_of active (default_name d) = Some (default_value d)" by auto
  have any: "fst (delete_override key NoFault s) = Inr () \<and>
        set (store_items (snd (delete_override key NoFault s))) = set (store_items s)"
    if "map_of (store_items s) key = None" for key s
  proof -
    from that have "AList.delete key (store_items s) = store_items s"
      by (simp add: map_of_eq_None_iff delete_id)
    with delete_override_NoFault[of key s] show ?thesis by auto
  qed
  from r gone c1 mv dd pl any show ?thesis by blast
qed

text \<open>
  An override is deleted and the default's value is active again; and a deletion of a
  name that was not stored.
\<close>

theorem delete_then_resolve_amended_witness:
  "delete_override ''net.host'' NoFault
     \<lparr>file_lines = Some [(''net.host'', ''y'')], temp_lines = None, lock_held = False,
      events = []\<rparr>
   = (Inr (), \<lparr>file_lines = Some [], temp_lines = None, lock_held = False,
        events = [Acquire, Read, WriteTemp, Rename, Release]\<rparr>) \<and>
   fst (get_active_values_and_metadata
     \<lparr>defaults = [Default ''net.host'' ''x''], suggestions = [], docs = []\<rparr> NoFault
     \<lparr>file_lines = Some [], temp_lines = None, lock_held = False,
        events = [Acquire, Read, WriteTemp, Rename, Release]\<rparr>)
   = Inr ([(''net.host'', ''x'')], [], []) \<and>
   map_of [(''net.host'', ''x'')] ''net.host'' = Some ''x'' \<and>
   fst (delete_override ''net.port'' NoFault
     \<lparr>file_lines = Some [(''net.host'', ''y'')], temp_lines = None, lock_held = False,
      events = []\<rparr>) = Inr ()"
proof -
  let ?self = "\<lparr>defaults = [Default ''net.host'' ''x''], suggestions = [], docs = []\<rparr>"
  let ?s = "\<lparr>file_lines = Some [(''net.host'', ''y'')], temp_lines = None, lock_held = False,
      events = []\<rparr>"
  let ?s1 = "\<lparr>file_lines = Some [], temp_lines = None, lock_held = False,
        events = [Acquire, Read, WriteTemp, Rename, Release]\<rparr>"
  let ?s2 = "\<lparr>file_lines = Some [], temp_lines = None, lock_held = False,
        events = [Acquire, Read, WriteTemp, Rename, Release, Acquire, Read, Release]\<rparr>"
  have d: "Default ''net.host'' ''x'' \<in> set (defaults ?self)" by simp
  have del: "delete_override (default_name (Default ''net.host'' ''x'')) NoFault ?s = (Inr (), ?s1)"
    by code_simp
  have run: "get_active_values_and_metadata ?self NoFault ?s1
      = (Inr ([(''net.host'', ''x'')], [], []), ?s2)"
    by code_simp
  have pl: "plain_for ?self (default_value (Default ''net.host'' ''x''))"
    by (simp add: plain_for_def references_def tokenize_def)
  have absent: "map_of (store_items ?s) ''net.port'' = None" by (simp add: store_items_def)
  from delete_then_resolve_amended[OF d del run] pl absent del run
  show ?thesis by simp
qed

text \<open>
  Claim C8 as stated fails where the default's value holds a template reference: after
  the override of \<^verbatim>\<open>net.url\<close> is deleted, \<^verbatim>\<open>active\<close> holds the rendering of the
  default's value, not the default's value.
\<close>

theorem delete_then_resolve_counterexample:
  "fst (get_active_values_and_metadata
     \<lparr>defaults = [Default ''net.host'' ''x'', Default ''net.url'' ''http://{{net.host}}/api''],
      suggestions = [], docs = []\<rparr> NoFault
     (snd (delete_override ''net.url'' NoFault
        \<lparr>file_lines = Some [(''net.url'', ''http://elsewhere/'')], temp_lines = None,
         lock_held = False, events = []\<rparr>)))
   = Inr ([(''net.host'', ''x''), (''net.url'', ''http://x/api'')], [], []) \<and>
   map_of [(''net.host'', ''x''), (''net.url'', ''http://x/api'')] ''net.url''
     \<noteq> Some (default_value (Default ''net.url'' ''http://{{net.host}}/api''))"
  by code_simp

section \<open>Properties of the override store\<close>

lemma get_items_events:
  "get_items f s = (r, s') \<Longrightarrow>
   \<exists>acc. events s' = events s @ acc \<and> Acquire \<notin> set acc \<and> Release \<notin> set acc"
  by (auto simp: get_items_def create_new_def split: option.splits if_splits)

lemma get_items_lines:
  "get_items f s = (r, s') \<Longrightarrow> store_items s' = store_items s \<and> temp_lines s' = temp_lines s"
  by (auto simp: get_items_def create_new_def store_items_def split: option.splits if_splits)

lemma replace_items_events:
  "replace_items f items s = (r, s') \<Longrightarrow>
   \<exists>acc. events s' = events s @ acc \<and> Acquire \<notin> set acc \<and> Release \<notin> set acc"
  by (cases f) (auto simp: replace_items_def)

lemma replace_items_lines:
  "replace_items f items s = (r, s') \<Longrightarrow>
   (case r of Inl e \<Rightarrow> file_lines s' = file_lines s | Inr u \<Rightarrow> file_lines s' = Some items)"
  by (cases f) (auto simp: replace_items_def)

lemma set_key_events:
  assumes "set_key key val f s = (r, s')"
  shows "\<exists>acc. events s' = events s @ acc \<and> Acquire \<notin> set acc \<and> Release \<notin> set acc"
proof -
  obtain r1 s1 where g: "get_items f s = (r1, s1)" by (cases "get_items f s")
  from get_items_events[OF g] obtain a1 where a1: "events s1 = events s @ a1"
    "Acquire \<notin> set a1" "Release \<notin> set a1" by blast
  show ?thesis
  proof (cases r1)
    case (Inl e)
    with assms g a1 show ?thesis by (auto simp: set_key_def)
  next
    case (Inr items)
    with assms g have "replace_items f (sort_key fst (AList.update key val items)) s1 = (r, s')"
      by (simp add: set_key_def)
    from replace_items_events[OF this] obtain a2 where "events s' = events s1 @ a2"
      "Acquire \<notin> set a2" "Release \<notin> set a2" by blast
    with a1 have "events s' = events s @ (a1 @ a2) \<and> Acquire \<notin> set (a1 @ a2) \<and> Release \<notin> set (a1 @ a2)"
      by simp
    then show ?thesis by blast
  qed
qed

lemma delete_key_events:
  assumes "delete_key key f s = (r, s')"
  shows "\<exists>acc. events s' = events s @ acc \<and> Acquire \<notin> set acc \<and> Release \<notin> set acc"
proof -
  obtain r1 s1 where g: "get_items f s = (r1, s1)" by (cases "get_items f s")
  from get_items_events[OF g] obtain a1 where a1: "events s1 = events s @ a1"
    "Acquire \<notin> set a1" "Release \<notin> set a1" by blast
  show ?thesis
  proof (cases r1)
    case (Inl e)
    with assms g a1 show ?thesis by (auto simp: delete_key_def)
  next
    case (Inr items)
    with assms g have "replace_items f (sort_key fst (AList.delete key items)) s1 = (r, s')"
      by (simp add: delete_key_def)
    from replace_items_events[OF this] obtain a2 where "events s' = events s1 @ a2"
      "Acquire \<notin> set a2" "Release \<notin> set a2" by blast
    with a1 have "events s' = events s @ (a1 @ a2) \<and> Acquire \<notin> set (a1 @ a2) \<and> Release \<notin> set (a1 @ a2)"
      by simp
    then show ?thesis by blast
  qed
qed

lemma with_ProtectedFilePath_scoped:
  assumes free: "\<not> lock_held s"
    and body: "\<And>s0 r s'. body s0 = (r, s') \<Longrightarrow>
       \<exists>acc. events s' = events s0 @ acc \<and> Acquire \<notin> set acc \<and> Release \<notin> set acc"
  shows "scoped f s (with_ProtectedFilePath f body s)"
proof (cases "f = LockFails")
  case True
  with free show ?thesis by (simp add: scoped_def with_ProtectedFilePath_def)
next
  case False
  let ?s0 = "s\<lparr>lock_held := True, events := events s @ [Acquire]\<rparr>"
  obtain r s' where b: "body ?s0 = (r, s')" by (cases "body ?s0")
  from body[OF b] obtain acc where "events s' = events ?s0 @ acc"
    "Acquire \<notin> set acc" "Release \<notin> set acc" by blast
  then have "events s' @ [Release] = events s @ [Acquire] @ acc @ [Release] \<and>
     Acquire \<notin> set acc \<and> Release \<notin> set acc" by simp
  with False b show ?thesis by (auto simp: scoped_def with_ProtectedFilePath_def)
qed

lemma set_key_atomic:
  assumes "set_key key val f s = (r, s')"
  shows "case r of Inl e \<Rightarrow> store_items s' = store_items s
         | Inr u \<Rightarrow> store_items s' = sort_key fst (AList.update key val (store_items s))"
proof -
  obtain r1 s1 where g: "get_items f s = (r1, s1)" by (cases "get_items f s")
  note l = get_items_lines[OF g]
  show ?thesis
  proof (cases r1)
    case (Inl e)
    with assms g l show ?thesis by (auto simp: set_key_def)
  next
    case (Inr items)
    with g get_items_Inr[of f s items s1] have items: "items = store_items s" by simp
    from Inr assms g have "replace_items f (sort_key fst (AList.update key val items)) s1 = (r, s')"
      by (simp add: set_key_def)
    from replace_items_lines[OF this] l items show ?thesis
      by (auto simp: store_items_def split: sum.splits)
  qed
qed

text \<open>
  Claim C2.  From a state in which the lock is free, each of the three operations of the
  override store, whatever goes wrong in it, leaves the lock free: either the lock could
  not be taken and nothing was touched, or the operation took the lock before its first
  access to the files and released it after the last.  A \<^verbatim>\<open>set_override\<close> that ends
  in an error leaves the entries of the store as they were, and one that succeeds leaves
  the complete new entries: the store file is never half-written.
\<close>

theorem override_store_scoped_atomic:
  assumes "\<not> lock_held s"
  shows "scoped f s (get_overrides f s) \<and>
         scoped f s (set_override key val f s) \<and>
         scoped f s (delete_override key f s) \<and>
         (case fst (set_override key val f s) of
            Inl e \<Rightarrow> store_items (snd (set_override key val f s)) = store_items s
          | Inr u \<Rightarrow> store_items (snd (set_override key val f s))
                      = sort_key fst (AList.update key val (store_items s)))"
proof -
  have g: "scoped f s (with_ProtectedFilePath f (get_items f) s)"
    using assms get_items_events by (rule with_ProtectedFilePath_scoped)
  have 1: "scoped f s (get_overrides f s)"
    using g unfolding get_overrides_def scoped_def
    by (auto split: prod.splits sum.splits if_splits)
  have 2: "scoped f s (set_override key val f s)"
    unfolding set_override_def using assms set_key_events by (rule with_ProtectedFilePath_scoped)
  have 3: "scoped f s (delete_override key f s)"
    unfolding delete_override_def using assms delete_key_events
    by (rule with_ProtectedFilePath_scoped)
  have 4: "case fst (set_override key val f s) of
            Inl e \<Rightarrow> store_items (snd (set_override key val f s)) = store_items s
          | Inr u \<Rightarrow> store_items (snd (set_override key val f s))
                      = sort_key fst (AList.update key val (store_items s))"
  proof (cases "f = LockFails")
    case True
    then show ?thesis by (simp add: set_override_def with_ProtectedFilePath_def)
  next
    case False
    let ?s0 = "s\<lparr>lock_held := True, events := events s @ [Acquire]\<rparr>"
    obtain r s' where b: "set_key key val f ?s0 = (r, s')" by (cases "set_key key val f ?s0")
    from set_key_atomic[OF b] False b show ?thesis
      by (auto simp: set_override_def with_ProtectedFilePath_def store_items_def split: sum.splits)
  qed
  from 1 2 3 4 show ?thesis by blast
qed

text \<open>
  A \<^verbatim>\<open>set_override\<close> whose write breaks off after one line: the partial content is
  in the temporary file, the store file is untouched, and the lock is free again.
\<close>

theorem override_store_scoped_atomic_witness:
  "\<not> lock_held \<lparr>file_lines = Some [(''a'', ''1'')], temp_lines = None, lock_held = False,
      events = []\<rparr> \<and>
   set_override ''b'' ''2'' (WriteFails 1)
     \<lparr>file_lines = Some [(''a'', ''1'')], temp_lines = None, lock_held = False, events = []\<rparr>
   = (Inl StoreIOError,
      \<lparr>file_lines = Some [(''a'', ''1'')], temp_lines = Some [(''a'', ''1'')],
       lock_held = False, events = [Acquire, Read, WriteTemp, Release]\<rparr>) \<and>
   scoped (WriteFails 1)
     \<lparr>file_lines = Some [(''a'', ''1'')], temp_lines = None, lock_held = False, events = []\<rparr>
     (set_override ''b'' ''2'' (WriteFails 1)
        \<lparr>file_lines = Some [(''a'', ''1'')], temp_lines = None, lock_held = False,
         events = []\<rparr>) \<and>
   set_override ''b'' ''2'' NoFault
     \<lparr>file_lines = Some [(''a'', ''1'')], temp_lines = None, lock_held = False, events = []\<rparr>
   = (Inr (),
      \<lparr>file_lines = Some [(''a'', ''1''), (''b'', ''2'')], temp_lines = None,
       lock_held = False, events = [Acquire, Read, WriteTemp, Rename, Release]\<rparr>)"
proof -
  let ?s = "\<lparr>file_lines = Some [(''a'', ''1'')], temp_lines = None, lock_held = False,
      events = []\<rparr>"
  have free: "\<not> lock_held ?s" by simp
  have bad: "set_override ''b'' ''2'' (WriteFails 1) ?s
   = (Inl StoreIOError,
      \<lparr>file_lines = Some [(''a'', ''1'')], temp_lines = Some [(''a'', ''1'')],
       lock_held = False, events = [Acquire, Read, WriteTemp, Release]\<rparr>)"
    by code_simp
  have good: "set_override ''b'' ''2'' NoFault ?s
   = (Inr (),
      \<lparr>file_lines = Some [(''a'', ''1''), (''b'', ''2'')], temp_lines = None,
       lock_held = False, events = [Acquire, Read, WriteTemp, Rename, Release]\<rparr>)"
    by code_simp
  from override_store_scoped_atomic[OF free, of "WriteFails 1" "''b''" "''2''"] free bad good
  show ?thesis by simp
qed

section \<open>Properties of the unknown-key guard\<close>

lemma get_close_matches_defaults:
  "0 < n \<Longrightarrow> 0 \<le> cutoff \<Longrightarrow> cutoff \<le> 1 \<Longrightarrow>
   get_close_matches key names n cutoff
     = Inr (map snd (nlargest n (close_loop key cutoff names [])))"
  by (simp add: get_close_matches_def)

lemma exit_on_unknown_key_known:
  "exit_on_unknown_key self key message = Inr () \<longleftrightarrow>
   key \<in> default_name ` set (defaults self)"
  by (auto simp: exit_on_unknown_key_def get_close_matches_defaults)

text \<open>
  \<^verbatim>\<open>set_var\<close> and \<^verbatim>\<open>delete_var\<close> call the guard first: for a key that is no default
  name they end with the guard's exit, carrying the message with the key and the close
  matches, and leave the store untouched; for a default name they are the store
  operation.
\<close>

lemma set_var_delete_var_guarded:
  "(key \<notin> default_name ` set (defaults self) \<longrightarrow>
      (\<exists>close_matches.
         get_close_matches key (map default_name (defaults self)) 3 (6 / 10) = Inr close_matches \<and>
         set_var self key val f s = (Inl (SystemExit (set_message key) close_matches), s) \<and>
         delete_var self key f s = (Inl (SystemExit (delete_message key) close_matches), s))) \<and>
   (key \<in> default_name ` set (defaults self) \<longrightarrow>
      set_var self key val f s = set_override key val f s \<and>
      delete_var self key f s = delete_override key f s)"
  by (auto simp: set_var_def delete_var_def exit_on_unknown_key_def get_close_matches_defaults)

text \<open>
  Claim C4 at the failing input.  With \<^verbatim>\<open>host.enabled\<close> the only default, the key
  \<^verbatim>\<open>hots.enabled\<close> is unknown: the guard exits on it with the close match
  \<^verbatim>\<open>host.enabled\<close>, and \<^verbatim>\<open>set_var\<close> on that key leaves the store untouched.
  \<^verbatim>\<open>enable\<close> for the service \<^verbatim>\<open>hots\<close> sets an override under that same key without
  the guard: it returns normally and the store holds \<^verbatim>\<open>hots.enabled=True\<close>.
\<close>

theorem enable_without_guard:
  "exit_on_unknown_key
     \<lparr>defaults = [Default ''host.enabled'' ''False''], suggestions = [], docs = []\<rparr>
     ''hots.enabled'' (set_message ''hots.enabled'')
   = Inl (SystemExit (set_message ''hots.enabled'') [''host.enabled'']) \<and>
   set_var \<lparr>defaults = [Default ''host.enabled'' ''False''], suggestions = [], docs = []\<rparr>
     ''hots.enabled'' ''True'' NoFault
     \<lparr>file_lines = Some [], temp_lines = None, lock_held = False, events = []\<rparr>
   = (Inl (SystemExit (set_message ''hots.enabled'') [''host.enabled'']),
      \<lparr>file_lines = Some [], temp_lines = None, lock_held = False, events = []\<rparr>) \<and>
   enable \<lparr>defaults = [Default ''host.enabled'' ''False''], suggestions = [], docs = []\<rparr>
     ''hots'' NoFault
     \<lparr>file_lines = Some [], temp_lines = None, lock_held = False, events = []\<rparr>
   = (Inr (),
      \<lparr>file_lines = Some [(''hots.enabled'', ''True'')], temp_lines = None, lock_held = False,
       events = [Acquire, Read, WriteTemp, Rename, Release]\<rparr>)"
  by code_simp

section \<open>Properties of the documentation listing\<close>

lemma group_loop_map_of:
  "map_of (group_loop names acc) c =
     (if c \<in> category_of ` set names \<or> map_of acc c \<noteq> None
      then Some ((case map_of acc c of Some l \<Rightarrow> l | None \<Rightarrow> [])
                 @ filter (\<lambda>n. category_of n = c) names)
      else None)"
proof (induction names arbitrary: acc)
  case Nil
  then show ?case by (auto split: option.splits)
next
  case (Cons name names)
  show ?case
  proof (cases "map_of acc (category_of name)")
    case None
    then show ?thesis using Cons.IH[of "AList.update (category_of name) [name] acc"]
      by (auto simp: update_conv' split: option.splits)
  next
    case (Some l)
    then show ?thesis using Cons.IH[of "AList.update (category_of name) (l @ [name]) acc"]
      by (auto simp: update_conv' split: option.splits)
  qed
qed

lemma group_loop_distinct:
  "distinct (map fst acc) \<Longrightarrow> distinct (map fst (group_loop names acc))"
  by (induction names arbitrary: acc) (auto simp: Let_def distinct_update split: option.splits)

lemma group_loop_keys: "fst ` set (group_loop names []) = category_of ` set names"
proof -
  have "dom (map_of (group_loop names [])) = category_of ` set names"
    by (auto simp: dom_def group_loop_map_of)
  then show ?thesis by (simp add: dom_map_of_conv_image_fst)
qed

lemma map_of_find: "map_of (map (\<lambda>r. (nm r, r)) xs) n = find (\<lambda>r. nm r = n) xs"
  by (induction xs) auto

lemma name_lines_Inr:
  "name_lines wrap (map (\<lambda>r. (default_name r, r)) (defaults self))
     (map (\<lambda>r. (doc_name r, r)) (docs self)) names = Inr lines \<Longrightarrow>
   lines = concat (map (entry_lines wrap self) names) \<and>
   (\<forall>n \<in> set names. n \<in> default_name ` set (defaults self))"
proof (induction names arbitrary: lines)
  case Nil
  then show ?case by simp
next
  case (Cons n names)
  let ?dbn = "map (\<lambda>r. (default_name r, r)) (defaults self)"
  let ?docs = "map (\<lambda>r. (doc_name r, r)) (docs self)"
  from Cons.prems obtain doc dflt rest where
    doc: "map_of ?docs n = Some doc" and dflt: "map_of ?dbn n = Some dflt"
    and rest: "name_lines wrap ?dbn ?docs names = Inr rest"
    and lines: "lines = [''    '' @ n] @ map (\<lambda>line. ''        '' @ line) (wrap (doc_doc doc))
               @ [''            Default: '' @ default_value dflt @ [CHR 0x0A]] @ rest"
    by (auto split: option.splits sum.splits)
  from dflt have "n \<in> default_name ` set (defaults self)"
    by (auto dest!: map_of_SomeD)
  moreover have "entry_lines wrap self n = [''    '' @ n]
      @ map (\<lambda>line. ''        '' @ line) (wrap (doc_doc doc))
      @ [''            Default: '' @ default_value dflt @ [CHR 0x0A]]"
    using doc dflt by (simp add: entry_lines_def map_of_find)
  ultimately show ?case using Cons.IH[OF rest] lines by simp
qed

lemma name_lines_total:
  "\<forall>n \<in> set names. map_of docs_by_name n \<noteq> None \<and> map_of defaults_by_name n \<noteq> None \<Longrightarrow>
   \<exists>lines. name_lines wrap defaults_by_name docs_by_name names = Inr lines"
  by (induction names) auto

lemma name_lines_Inl:
  "name_lines wrap defaults_by_name docs_by_name names = Inl e \<Longrightarrow>
   \<exists>n \<in> set names. e = KeyError n \<and>
      (map_of docs_by_name n = None \<or> map_of defaults_by_name n = None)"
  by (induction names) (auto split: option.splits sum.splits)

lemma category_loop_Inr:
  "category_loop title wrap (map (\<lambda>r. (default_name r, r)) (defaults self))
     (map (\<lambda>r. (doc_name r, r)) (docs self)) nbc cats = Inr out \<Longrightarrow>
   (\<forall>c \<in> set cats. \<exists>names. map_of nbc c = Some names \<and>
        (\<forall>n \<in> set names. n \<in> default_name ` set (defaults self))) \<and>
   out = concat (map (\<lambda>c. section_lines title wrap self c
                               (sort (case map_of nbc c of Some names \<Rightarrow> names | None \<Rightarrow> []))) cats)"
proof (induction cats arbitrary: out)
  case Nil
  then show ?case by simp
next
  case (Cons c cats)
  let ?dbn = "map (\<lambda>r. (default_name r, r)) (defaults self)"
  let ?docs = "map (\<lambda>r. (doc_name r, r)) (docs self)"
  from Cons.prems obtain names lines rest where
    names: "map_of nbc c = Some names"
    and lines: "name_lines wrap ?dbn ?docs (sort names) = Inr lines"
    and rest: "category_loop title wrap ?dbn ?docs nbc cats = Inr rest"
    and out: "out = [title c, replicate (length c) CHR ''-''] @ lines @ [[CHR 0x0A]] @ rest"
    by (auto split: option.splits sum.splits)
  from name_lines_Inr[OF lines]
  have l: "lines = concat (map (entry_lines wrap self) (sort names))"
    and d: "\<forall>n \<in> set names. n \<in> default_name ` set (defaults self)" by auto
  from Cons.IH[OF rest] names l d out show ?case by (simp add: section_lines_def)
qed

lemma category_loop_total:
  "\<forall>c \<in> set cats. \<exists>names. map_of nbc c = Some names \<and>
      (\<forall>n \<in> set names. map_of docs_by_name n \<noteq> None \<and> map_of defaults_by_name n \<noteq> None) \<Longrightarrow>
   \<exists>out. category_loop title wrap defaults_by_name docs_by_name nbc cats = Inr out"
proof (induction cats)
  case Nil
  then show ?case by simp
next
  case (Cons c cats)
  from Cons.prems obtain names where names: "map_of nbc c = Some names"
    and ok: "\<forall>n \<in> set (sort names). map_of docs_by_name n \<noteq> None \<and> map_of defaults_by_name n \<noteq> None"
    by auto
  from name_lines_total[OF ok] obtain lines
    where "name_lines wrap defaults_by_name docs_by_name (sort names) = Inr lines" by blast
  moreover from Cons.IH Cons.prems obtain rest
    where "category_loop title wrap defaults_by_name docs_by_name nbc cats = Inr rest" by auto
  ultimately show ?case using names by simp
qed

text \<open>The stages of a run of show_docs whose two validations pass.\<close>

lemma show_docs_valid:
  assumes "validate_and_map_by_name default_name (defaults self) = Inr dbn"
    and "validate_and_map_by_name doc_name (docs self) = Inr docsbn"
  shows "show_docs title wrap self =
     (if ''main'' \<in> category_of ` doc_name ` set (docs self)
      then category_loop title wrap (map (\<lambda>r. (default_name r, r)) (defaults self))
             (map (\<lambda>r. (doc_name r, r)) (docs self))
             (group_loop (map doc_name (docs self)) [])
             (''main'' # remove1 ''main''
                (sort (map fst (group_loop (map doc_name (docs self)) []))))
      else Inl ValueError)"
proof -
  from validate_Inr_eq[OF assms(1)] have dbn: "dbn = map (\<lambda>r. (default_name r, r)) (defaults self)"
    by simp
  from validate_Inr_eq[OF assms(2)] have docsbn: "docsbn = map (\<lambda>r. (doc_name r, r)) (docs self)"
    by simp
  have keys: "map fst docsbn = map doc_name (docs self)" unfolding docsbn by (simp add: comp_def)
  have "set (sort (map fst (group_loop (map doc_name (docs self)) [])))
      = category_of ` doc_name ` set (docs self)"
    using group_loop_keys[of "map doc_name (docs self)"] by simp
  then show ?thesis
    using assms keys unfolding show_docs_def remove_main_def dbn[symmetric] docsbn[symmetric]
    by (simp add: Let_def)
qed

lemma show_docs_Inr:
  assumes "show_docs title wrap self = Inr out"
  shows "distinct (map default_name (defaults self))"
    and "distinct (map doc_name (docs self))"
    and "''main'' \<in> category_of ` doc_name ` set (docs self)"
    and "category_loop title wrap (map (\<lambda>r. (default_name r, r)) (defaults self))
             (map (\<lambda>r. (doc_name r, r)) (docs self))
             (group_loop (map doc_name (docs self)) [])
             (''main'' # remove1 ''main''
                (sort (map fst (group_loop (map doc_name (docs self)) [])))) = Inr out"
proof -
  from assms obtain dbn where dbn: "validate_and_map_by_name default_name (defaults self) = Inr dbn"
    by (cases "validate_and_map_by_name default_name (defaults self)") (auto simp: show_docs_def)
  from assms dbn obtain docsbn where docsbn: "validate_and_map_by_name doc_name (docs self) = Inr docsbn"
    by (cases "validate_and_map_by_name doc_name (docs self)") (auto simp: show_docs_def)
  from validate_Inr_eq[OF dbn] show "distinct (map default_name (defaults self))" by simp
  from validate_Inr_eq[OF docsbn] show "distinct (map doc_name (docs self))" by simp
  from assms show_docs_valid[OF dbn docsbn, of title wrap]
  show "''main'' \<in> category_of ` doc_name ` set (docs self)"
    by (auto split: if_splits)
  with assms show_docs_valid[OF dbn docsbn, of title wrap]
  show "category_loop title wrap (map (\<lambda>r. (default_name r, r)) (defaults self))
             (map (\<lambda>r. (doc_name r, r)) (docs self))
             (group_loop (map doc_name (docs self)) [])
             (''main'' # remove1 ''main''
                (sort (map fst (group_loop (map doc_name (docs self)) [])))) = Inr out"
    by simp
qed

lemma group_loop_names:
  "c \<in> category_of ` doc_name ` set (docs self) \<Longrightarrow>
   map_of (group_loop (map doc_name (docs self)) []) c = Some (names_in self c)"
  by (simp add: group_loop_map_of names_in_def)

lemma show_docs_sufficient:
  assumes dbn: "validate_and_map_by_name default_name (defaults self) = Inr dbn"
    and docsbn: "validate_and_map_by_name doc_name (docs self) = Inr docsbn"
    and main: "\<exists>d \<in> set (docs self). category_of (doc_name d) = ''main''"
    and sub: "\<forall>d \<in> set (docs self). doc_name d \<in> default_name ` set (defaults self)"
  shows "\<exists>out. show_docs title wrap self = Inr out"
proof -
  let ?dbn = "map (\<lambda>r. (default_name r, r)) (defaults self)"
  let ?docs = "map (\<lambda>r. (doc_name r, r)) (docs self)"
  let ?nbc = "group_loop (map doc_name (docs self)) []"
  let ?cats = "''main'' # remove1 ''main'' (sort (map fst ?nbc))"
  from main have m: "''main'' \<in> category_of ` doc_name ` set (docs self)" by force
  have keys: "set (sort (map fst ?nbc)) = category_of ` doc_name ` set (docs self)"
    using group_loop_keys[of "map doc_name (docs self)"] by simp
  have "\<forall>c \<in> set ?cats. \<exists>names. map_of ?nbc c = Some names \<and>
      (\<forall>n \<in> set names. map_of ?docs n \<noteq> None \<and> map_of ?dbn n \<noteq> None)"
  proof
    fix c assume "c \<in> set ?cats"
    moreover have "set (remove1 ''main'' (sort (map fst ?nbc))) \<subseteq> set (sort (map fst ?nbc))"
      by (rule set_remove1_subset)
    ultimately have c: "c \<in> category_of ` doc_name ` set (docs self)"
      using keys m by auto
    have "\<forall>n \<in> set (names_in self c). map_of ?docs n \<noteq> None \<and> map_of ?dbn n \<noteq> None"
    proof
      fix n assume "n \<in> set (names_in self c)"
      then have n: "n \<in> doc_name ` set (docs self)" by (auto simp: names_in_def)
      with sub have "n \<in> default_name ` set (defaults self)" by auto
      with n show "map_of ?docs n \<noteq> None \<and> map_of ?dbn n \<noteq> None"
        by (simp add: map_of_eq_None_iff image_image)
    qed
    with group_loop_names[OF c]
    show "\<exists>names. map_of ?nbc c = Some names \<and>
      (\<forall>n \<in> set names. map_of ?docs n \<noteq> None \<and> map_of ?dbn n \<noteq> None)" by blast
  qed
  from category_loop_total[OF this] show_docs_valid[OF dbn docsbn, of title wrap] m
  show ?thesis by simp
qed

text \<open>
  Claim C9, as amended.  Whenever \<^verbatim>\<open>show_docs\<close> gets as far as its output, the output
  is the sequence of the category sections, \<^verbatim>\<open>main\<close> first and the other categories
  after it in ascending order without repetition; the categories are exactly the first
  dot-segments of the names of the Doc entries, and the section of a category lists, in
  ascending order, the names of the entries with that first segment.
\<close>

theorem show_docs_grouped_amended:
  assumes "show_docs title wrap self = Inr out"
  shows "\<exists>others. sorted others \<and> distinct (''main'' # others) \<and>
           set (''main'' # others) = category_of ` doc_name ` set (docs self) \<and>
           out = concat (map (\<lambda>c. section_lines title wrap self c (sort (names_in self c)))
                           (''main'' # others))"
proof -
  let ?nbc = "group_loop (map doc_name (docs self)) []"
  let ?cats = "sort (map fst ?nbc)"
  let ?others = "remove1 ''main'' ?cats"
  note main = show_docs_Inr(3)[OF assms]
  have set_cats: "set ?cats = category_of ` doc_name ` set (docs self)"
    using group_loop_keys[of "map doc_name (docs self)"] by simp
  have dist: "distinct ?cats" using group_loop_distinct[of "[]" "map doc_name (docs self)"] by simp
  have 1: "sorted ?others" by (simp add: sorted_remove1)
  have 2: "distinct (''main'' # ?others)" using dist by simp
  have 3: "set (''main'' # ?others) = category_of ` doc_name ` set (docs self)"
    using main dist set_cats by auto
  from category_loop_Inr[OF show_docs_Inr(4)[OF assms]]
  have "out = concat (map (\<lambda>c. section_lines title wrap self c
          (sort (case map_of ?nbc c of Some names \<Rightarrow> names | None \<Rightarrow> []))) (''main'' # ?others))"
    by simp
  also have "\<dots> = concat (map (\<lambda>c. section_lines title wrap self c (sort (names_in self c)))
                           (''main'' # ?others))"
  proof -
    have "map (\<lambda>c. section_lines title wrap self c
          (sort (case map_of ?nbc c of Some names \<Rightarrow> names | None \<Rightarrow> []))) (''main'' # ?others)
        = map (\<lambda>c. section_lines title wrap self c (sort (names_in self c))) (''main'' # ?others)"
    proof (rule map_cong[OF refl])
      fix c assume "c \<in> set (''main'' # ?others)"
      with 3 have "c \<in> category_of ` doc_name ` set (docs self)" by blast
      from group_loop_names[OF this]
      show "section_lines title wrap self c
          (sort (case map_of ?nbc c of Some names \<Rightarrow> names | None \<Rightarrow> []))
        = section_lines title wrap self c (sort (names_in self c))" by simp
    qed
    then show ?thesis by (rule arg_cong)
  qed
  finally have 4: "out = concat (map (\<lambda>c. section_lines title wrap self c (sort (names_in self c)))
                           (''main'' # ?others))" .
  from 1 2 3 4 show ?thesis by blast
qed

text \<open>A listing with three categories, given out of order.\<close>

theorem show_docs_grouped_amended_witness:
  "show_docs (\<lambda>s. s) (\<lambda>s. [s])
     \<lparr>defaults = [Default ''net.host'' ''x'', Default ''main.b'' ''1'', Default ''main.a'' ''2'',
                  Default ''app.z'' ''3''],
      suggestions = [],
      docs = [Doc ''net.host'' ''the host'', Doc ''main.b'' ''bee'', Doc ''app.z'' ''zed'',
              Doc ''main.a'' ''ay'']\<rparr>
   = Inr [''main'', ''----'',
          ''    main.a'', ''        ay'', ''            Default: 2'' @ [CHR 0x0A],
          ''    main.b'', ''        bee'', ''            Default: 1'' @ [CHR 0x0A], [CHR 0x0A],
          ''app'', ''---'',
          ''    app.z'', ''        zed'', ''            Default: 3'' @ [CHR 0x0A], [CHR 0x0A],
          ''net'', ''---'',
          ''    net.host'', ''        the host'', ''            Default: x'' @ [CHR 0x0A],
          [CHR 0x0A]] \<and>
   (\<exists>others. sorted others \<and> distinct (''main'' # others) \<and>
      set (''main'' # others) = {''net'', ''main'', ''app''})"
proof -
  let ?self = "\<lparr>defaults = [Default ''net.host'' ''x'', Default ''main.b'' ''1'', Default ''main.a'' ''2'',
                  Default ''app.z'' ''3''],
      suggestions = [],
      docs = [Doc ''net.host'' ''the host'', Doc ''main.b'' ''bee'', Doc ''app.z'' ''zed'',
              Doc ''main.a'' ''ay'']\<rparr>"
  have run: "show_docs (\<lambda>s. s) (\<lambda>s. [s]) ?self
   = Inr [''main'', ''----'',
          ''    main.a'', ''        ay'', ''            Default: 2'' @ [CHR 0x0A],
          ''    main.b'', ''        bee'', ''            Default: 1'' @ [CHR 0x0A], [CHR 0x0A],
          ''app'', ''---'',
          ''    app.z'', ''        zed'', ''            Default: 3'' @ [CHR 0x0A], [CHR 0x0A],
          ''net'', ''---'',
          ''    net.host'', ''        the host'', ''            Default: x'' @ [CHR 0x0A],
          [CHR 0x0A]]"
    by code_simp
  have cats: "category_of ` doc_name ` set (docs ?self) = {''net'', ''main'', ''app''}"
    by (simp add: category_of_def insert_commute)
  from show_docs_grouped_amended[OF run] obtain others where
    "sorted others" "distinct (''main'' # others)"
    "set (''main'' # others) = category_of ` doc_name ` set (docs ?self)" by blast
  with cats have "\<exists>others. sorted others \<and> distinct (''main'' # others) \<and>
      set (''main'' # others) = {''net'', ''main'', ''app''}" by metis
  with run show ?thesis by blast
qed

text \<open>
  Claim C9 as stated fails: for a well-formed collection without an entry in the
  category \<^verbatim>\<open>main\<close> nothing is presented, the method raises \<^verbatim>\<open>ValueError\<close>.
\<close>

theorem show_docs_grouped_counterexample:
  "show_docs (\<lambda>s. s) (\<lambda>s. [s])
     \<lparr>defaults = [Default ''net.host'' ''x''], suggestions = [],
      docs = [Doc ''net.host'' ''the host'']\<rparr> = Inl ValueError"
  by code_simp

text \<open>
  Claim C10.  \<^verbatim>\<open>show_docs\<close> reaches its output only when some Doc entry's name has
  \<^verbatim>\<open>main\<close> as its first dot-segment and every Doc entry's name is a default name; for a
  configuration that violates either condition it ends in an error, and so it does for
  the empty collection of docs, where the error is the \<^verbatim>\<open>ValueError\<close> of
  \<^verbatim>\<open>categories.remove('main')\<close> when the defaults are well-formed.
\<close>

theorem show_docs_partial:
  "(show_docs title wrap self = Inr out \<longrightarrow>
      (\<exists>d \<in> set (docs self). category_of (doc_name d) = ''main'') \<and>
      (\<forall>d \<in> set (docs self). doc_name d \<in> default_name ` set (defaults self))) \<and>
   ((\<not> (\<exists>d \<in> set (docs self). category_of (doc_name d) = ''main'') \<or>
     \<not> (\<forall>d \<in> set (docs self). doc_name d \<in> default_name ` set (defaults self))) \<longrightarrow>
      (\<exists>e. show_docs title wrap self = Inl e)) \<and>
   (\<exists>e. show_docs title wrap (self\<lparr>docs := []\<rparr>) = Inl e) \<and>
   (distinct (map default_name (defaults self)) \<and>
    (\<forall>d \<in> set (defaults self). valid_name (default_name d)) \<longrightarrow>
      show_docs title wrap (self\<lparr>docs := []\<rparr>) = Inl ValueError)"
proof -
  have nec: "(\<exists>d \<in> set (docs self). category_of (doc_name d) = ''main'') \<and>
      (\<forall>d \<in> set (docs self). doc_name d \<in> default_name ` set (defaults self))"
    if run: "show_docs title wrap self = Inr out" for self out
  proof
    from show_docs_Inr(3)[OF run]
    show "\<exists>d \<in> set (docs self). category_of (doc_name d) = ''main''" by auto
  next
    let ?nbc = "group_loop (map doc_name (docs self)) []"
    let ?cats = "''main'' # remove1 ''main'' (sort (map fst ?nbc))"
    note main = show_docs_Inr(3)[OF run]
    have dist: "distinct (sort (map fst ?nbc))"
      using group_loop_distinct[of "[]" "map doc_name (docs self)"] by simp
    have "set (sort (map fst ?nbc)) = category_of ` doc_name ` set (docs self)"
      using group_loop_keys[of "map doc_name (docs self)"] by simp
    with main dist have set_cats: "set ?cats = category_of ` doc_name ` set (docs self)"
      by auto
    from category_loop_Inr[OF show_docs_Inr(4)[OF run]]
    have all: "\<forall>c \<in> set ?cats. \<exists>names. map_of ?nbc c = Some names \<and>
        (\<forall>n \<in> set names. n \<in> default_name ` set (defaults self))" by blast
    show "\<forall>d \<in> set (docs self). doc_name d \<in> default_name ` set (defaults self)"
    proof
      fix d assume d: "d \<in> set (docs self)"
      then have c: "category_of (doc_name d) \<in> category_of ` doc_name ` set (docs self)" by blast
      with set_cats have "category_of (doc_name d) \<in> set ?cats" by blast
      with all obtain names where "map_of ?nbc (category_of (doc_name d)) = Some names"
        and ok: "\<forall>n \<in> set names. n \<in> default_name ` set (defaults self)" by blast
      with group_loop_names[OF c] have "names = names_in self (category_of (doc_name d))" by simp
      with d have "doc_name d \<in> set names" by (simp add: names_in_def)
      with ok show "doc_name d \<in> default_name ` set (defaults self)" by blast
    qed
  qed
  have fails: "\<exists>e. show_docs title wrap self = Inl e"
    if "\<not> (\<exists>d \<in> set (docs self). category_of (doc_name d) = ''main'') \<or>
     \<not> (\<forall>d \<in> set (docs self). doc_name d \<in> default_name ` set (defaults self))" for self
  proof (cases "show_docs title wrap self")
    case (Inl e)
    then show ?thesis by blast
  next
    case (Inr out)
    from nec[OF this] that show ?thesis by blast
  qed
  have "\<exists>e. show_docs title wrap (self\<lparr>docs := []\<rparr>) = Inl e"
    by (rule fails) simp
  moreover have "show_docs title wrap (self\<lparr>docs := []\<rparr>) = Inl ValueError"
    if "distinct (map default_name (defaults self)) \<and>
      (\<forall>d \<in> set (defaults self). valid_name (default_name d))"
  proof -
    from that validate_and_map_by_name_valid[of default_name "defaults self"]
    have "validate_and_map_by_name default_name (defaults (self\<lparr>docs := []\<rparr>))
        = Inr (map (\<lambda>r. (default_name r, r)) (defaults self))" by simp
    moreover have "validate_and_map_by_name doc_name (docs (self\<lparr>docs := []\<rparr>)) = Inr []"
      by (simp add: validate_and_map_by_name_def)
    ultimately show ?thesis using show_docs_valid[of "self\<lparr>docs := []\<rparr>" _ "[]" title wrap]
      by simp
  qed
  ultimately show ?thesis using nec[of self out] fails[of self] by blast
qed

text \<open>
  A configuration on which the listing is produced, with both conditions met; one whose
  only Doc entry is in the category \<^verbatim>\<open>main\<close> but names no default; and one without
  docs.
\<close>

theorem show_docs_partial_witness:
  "show_docs (\<lambda>s. s) (\<lambda>s. [s])
     \<lparr>defaults = [Default ''main.a'' ''2''], suggestions = [], docs = [Doc ''main.a'' ''ay'']\<rparr>
   = Inr [''main'', ''----'', ''    main.a'', ''        ay'',
          ''            Default: 2'' @ [CHR 0x0A], [CHR 0x0A]] \<and>
   category_of (doc_name (Doc ''main.a'' ''ay'')) = ''main'' \<and>
   (\<exists>e. show_docs (\<lambda>s. s) (\<lambda>s. [s])
     \<lparr>defaults = [Default ''main.a'' ''2''], suggestions = [], docs = [Doc ''main.q'' ''cue'']\<rparr>
     = Inl e) \<and>
   show_docs (\<lambda>s. s) (\<lambda>s. [s])
     \<lparr>defaults = [Default ''main.a'' ''2''], suggestions = [], docs = []\<rparr> = Inl ValueError"
proof -
  let ?self = "\<lparr>defaults = [Default ''main.a'' ''2''], suggestions = [],
      docs = [Doc ''main.a'' ''ay'']\<rparr>"
  let ?bad = "\<lparr>defaults = [Default ''main.a'' ''2''], suggestions = [],
      docs = [Doc ''main.q'' ''cue'']\<rparr>"
  let ?out = "[''main'', ''----'', ''    main.a'', ''        ay'',
          ''            Default: 2'' @ [CHR 0x0A], [CHR 0x0A]]"
  have run: "show_docs (\<lambda>s. s) (\<lambda>s. [s]) ?self = Inr ?out"
    by code_simp
  have v: "valid_name (default_name (Default ''main.a'' ''2''))"
    by (simp add: valid_name_def sublist_code)
  have 1: "category_of (doc_name (Doc ''main.a'' ''ay'')) = ''main''"
    using show_docs_partial[of "\<lambda>s. s" "\<lambda>s. [s]" ?self ?out] run
    by (simp add: category_of_def)
  have 2: "\<exists>e. show_docs (\<lambda>s. s) (\<lambda>s. [s]) ?bad = Inl e"
    using show_docs_partial[of "\<lambda>s. s" "\<lambda>s. [s]" ?bad] by simp
  have 3: "show_docs (\<lambda>s. s) (\<lambda>s. [s]) (?self\<lparr>docs := []\<rparr>) = Inl ValueError"
    using show_docs_partial[of "\<lambda>s. s" "\<lambda>s. [s]" ?self] v by simp
  from run 1 2 3 show ?thesis by simp
qed

end
